theory Spec2Isabelle
  imports Main "HOL-Library.Word" "HOL-Library.Signed_Division" "HOL-Library.Log_Nat"
begin

unbundle bit_operations_syntax

section \<open>Address primitives (libloc/private.h)\<close>

text \<open>
  A \<open>struct in6_addr\<close> is an array of 16 octets, \<open>s6_addr[0]\<close> first. The model is a
  list of bytes; a well-formed address has length 16. The member \<open>s6_addr32\<close> is the view
  of the same 16 octets as four 32-bit words in host byte order.
\<close>

type_synonym byte = "8 word"
type_synonym in6_addr = "byte list"

text \<open>The value of a byte sequence read as one big-endian unsigned integer.\<close>

fun be_val :: "byte list \<Rightarrow> nat" where
  "be_val [] = 0"
| "be_val (b # bs) = unat b * 256 ^ length bs + be_val bs"

text \<open>
  \<^verbatim>\<open>for (unsigned int i = 0; i < 16; i++) {
    if (a1->s6_addr[i] > a2->s6_addr[i]) return 1;
    else if (a1->s6_addr[i] < a2->s6_addr[i]) return -1;
  }
  return 0;\<close>
\<close>

function in6_addr_cmp_loop :: "nat \<Rightarrow> in6_addr \<Rightarrow> in6_addr \<Rightarrow> int" where
  "in6_addr_cmp_loop i a1 a2 =
     (if i < 16 then
        (if a1 ! i > a2 ! i then 1
         else if a1 ! i < a2 ! i then - 1
         else in6_addr_cmp_loop (i + 1) a1 a2)
      else 0)"
  by pat_completeness auto
termination
  by (relation "measure (\<lambda>(i, a1, a2). 16 - i)") auto

declare in6_addr_cmp_loop.simps [simp del]

definition in6_addr_cmp :: "in6_addr \<Rightarrow> in6_addr \<Rightarrow> int" where
  "in6_addr_cmp a1 a2 = in6_addr_cmp_loop 0 a1 a2"

text \<open>
  \<^verbatim>\<open>return ((address->s6_addr[i / 8] >> (7 - (i % 8))) & 1);\<close>
  Bit 0 is the most significant bit of \<open>s6_addr[0]\<close>. An index of 128 or more reads
  outside the array in the source; every statement below is about an index below 128.
\<close>

definition in6_addr_get_bit :: "in6_addr \<Rightarrow> nat \<Rightarrow> int" where
  "in6_addr_get_bit address i = uint (drop_bit (7 - i mod 8) (address ! (i div 8)) AND 1)"

text \<open>
  \<open>loc_prefix_to_bitmask\<close>: the first loop sets all 16 octets to 0. The second loop,
  \<^verbatim>\<open>for (int i = prefix, j = 0; i > 0; i -= 8, j++)\<close>, stores \<open>0xff\<close> or
  \<open>0xff << (8 - i)\<close> (computed as an \<open>int\<close>, truncated to the octet on assignment) into
  \<open>s6_addr[j]\<close>. The array has 16 elements: a store at \<open>j \<ge> 16\<close> is outside the object,
  and the model returns \<open>None\<close> there.
\<close>

function loc_prefix_to_bitmask_loop :: "int \<Rightarrow> nat \<Rightarrow> in6_addr \<Rightarrow> in6_addr option" where
  "loc_prefix_to_bitmask_loop i j bitmask =
     (if i > 0 then
        (if j < 16 then
           loc_prefix_to_bitmask_loop (i - 8) (j + 1)
             (bitmask[j := (if i \<ge> 8 then 0xff
                            else word_of_int (push_bit (nat (8 - i)) (0xff :: int)))])
         else None)
      else Some bitmask)"
  by pat_completeness auto
termination
  by (relation "measure (\<lambda>(i, j, bitmask). nat i)") auto

declare loc_prefix_to_bitmask_loop.simps [simp del]

text \<open>The parameter is an \<open>unsigned int\<close>; \<open>int i = prefix\<close> reads it as a signed 32-bit value.\<close>

definition loc_prefix_to_bitmask :: "32 word \<Rightarrow> in6_addr option" where
  "loc_prefix_to_bitmask prefix = loc_prefix_to_bitmask_loop (sint prefix) 0 (replicate 16 0)"

text \<open>
  The \<open>s6_addr32\<close> view: word \<open>i\<close> covers octets \<open>4i .. 4i+3\<close>. The host is taken to be
  little-endian; the operations below are bitwise, so the byte order of the view does not
  change their result.
\<close>

definition s6_addr32 :: "in6_addr \<Rightarrow> nat \<Rightarrow> 32 word" where
  "s6_addr32 a i =
     ucast (a ! (4 * i)) OR push_bit 8 (ucast (a ! (4 * i + 1)))
       OR push_bit 16 (ucast (a ! (4 * i + 2))) OR push_bit 24 (ucast (a ! (4 * i + 3)))"

definition s6_addr32_update :: "in6_addr \<Rightarrow> nat \<Rightarrow> 32 word \<Rightarrow> in6_addr" where
  "s6_addr32_update a i w =
     a[4 * i := ucast w, 4 * i + 1 := ucast (drop_bit 8 w),
       4 * i + 2 := ucast (drop_bit 16 w), 4 * i + 3 := ucast (drop_bit 24 w)]"

text \<open>
  \<^verbatim>\<open>for (unsigned int i = 0; i < 4; i++)
    a.s6_addr32[i] = address->s6_addr32[i] & bitmask->s6_addr32[i];\<close>
  The local \<open>a\<close> is not initialised in the source; the loop assigns every octet of it.
\<close>

definition loc_address_and :: "in6_addr \<Rightarrow> in6_addr \<Rightarrow> in6_addr" where
  "loc_address_and address bitmask =
     fold (\<lambda>i a. s6_addr32_update a i (s6_addr32 address i AND s6_addr32 bitmask i))
       [0 ..< 4] (replicate 16 0)"

text \<open>\<^verbatim>\<open>a.s6_addr32[i] = address->s6_addr32[i] | ~bitmask->s6_addr32[i];\<close>\<close>

definition loc_address_or :: "in6_addr \<Rightarrow> in6_addr \<Rightarrow> in6_addr" where
  "loc_address_or address bitmask =
     fold (\<lambda>i a. s6_addr32_update a i (s6_addr32 address i OR NOT (s6_addr32 bitmask i)))
       [0 ..< 4] (replicate 16 0)"


section \<open>The database (database.c)\<close>

text \<open>
  Integer types are those of an LP64 platform: \<open>size_t\<close> and \<open>off_t\<close> are 64 bits wide.
  An \<open>off_t\<close> is signed: it is compared with \<open>\<le>s\<close> and read with \<open>sint\<close>; the cast
  \<open>(size_t)pos\<close> keeps the bit pattern.
\<close>

type_synonym size_t = "64 word"
type_synonym off_t = "64 word"

definition ENOMEM :: int where "ENOMEM = 12"
definition EINVAL :: int where "EINVAL = 22"
definition ENOMSG :: int where "ENOMSG = 42"

text \<open>
  A function of the source returns an \<open>int\<close>, \<open>0\<close> for success, and hands its result over
  through an output parameter. The model returns \<open>Inr\<close> of the result for \<open>0\<close> and
  \<open>Inl (Error r)\<close> for the return value \<open>r \<noteq> 0\<close>, in which case the output parameter is
  not assigned. \<open>Segfault\<close> is a read through a null pointer or outside the bytes that a
  mapping of the file holds.
\<close>

datatype error = Error int | Segfault

subsection \<open>Byte order\<close>

text \<open>
  A struct member read from the file is the sequence of its bytes in file order;
  \<open>ntohs\<close>, \<open>ntohl\<close> and \<open>be64toh\<close> give its value as a big-endian number.
\<close>

definition ntohs :: "byte list \<Rightarrow> 16 word" where
  "ntohs bs = word_of_nat (be_val bs)"

definition ntohl :: "byte list \<Rightarrow> 32 word" where
  "ntohl bs = word_of_nat (be_val bs)"

definition be64toh :: "byte list \<Rightarrow> 64 word" where
  "be64toh bs = word_of_nat (be_val bs)"

subsection \<open>The string pool\<close>

text \<open>
  Modelled from the spec: \<open>stringpool.c\<close> is not among the sources. The spec: a pool is a
  byte arena addressed by offsets; \<open>get(off)\<close> returns the string starting at \<open>off\<close>,
  bounded by the next NUL, and fails if \<open>off\<close> is out of range or no NUL exists before the
  pool end. A pool is the list of the bytes of its arena; a new pool is empty.
\<close>

type_synonym loc_stringpool = "byte list"

definition loc_stringpool_new :: loc_stringpool where
  "loc_stringpool_new = []"

definition loc_stringpool_get :: "loc_stringpool \<Rightarrow> nat \<Rightarrow> byte list option" where
  "loc_stringpool_get pool off =
     (if off < length pool \<and> 0 \<in> set (drop off pool)
      then Some (takeWhile (\<lambda>b. b \<noteq> 0) (drop off pool))
      else None)"

subsection \<open>Files and what the code takes from outside\<close>

text \<open>A stream: the bytes of the file and the read position.\<close>

record FILE =
  contents :: "byte list"
  offset :: nat

text \<open>\<open>fread(buf, 1, n, f)\<close>: the bytes read (fewer than \<open>n\<close> at the end of the file).\<close>

definition fread :: "nat \<Rightarrow> FILE \<Rightarrow> byte list \<times> FILE" where
  "fread n f =
     (let bytes = take n (drop (offset f) (contents f))
      in (bytes, f\<lparr>offset := offset f + length bytes\<rparr>))"

text \<open>
  \<open>struct loc_database_header_v0\<close> is declared in a header that is not among the sources.
  The code reads seven members of it: \<open>created_at\<close> through \<open>be64toh\<close>, the others through
  \<open>ntohl\<close>. Its size and the position of the members are parameters of the model.
\<close>

record loc_database_header_v0 =
  h_created_at :: "byte list"
  h_vendor :: "byte list"
  h_description :: "byte list"
  h_pool_offset :: "byte list"
  h_pool_length :: "byte list"
  h_as_offset :: "byte list"
  h_as_length :: "byte list"

text \<open>
  The environment: whether \<open>calloc\<close> fails, the \<open>errno\<close> with which duplicating the stream
  fails (\<open>dup\<close>, \<open>fdopen\<close>), the \<open>errno\<close> with which \<open>mmap\<close> of a given length at a given
  file offset fails, the layout of the header, and the pool reader.

  \<open>loc_stringpool_read(pool, f, offset, length)\<close> is defined in \<open>stringpool.c\<close>, which is
  not among the sources: what it checks and how it reads is not fixed by the model. It is
  a parameter, from the pool, the stream and the declared offset and length of the pool
  to an error or the pool that has been read.
\<close>

record env =
  calloc_fails :: bool
  fdopen_errno :: "int option"
  mmap_errno :: "nat \<Rightarrow> nat \<Rightarrow> int option"
  sizeof_header_v0 :: nat
  header_v0_of_bytes :: "byte list \<Rightarrow> loc_database_header_v0"
  loc_stringpool_read :: "loc_stringpool \<Rightarrow> FILE \<Rightarrow> off_t \<Rightarrow> size_t \<Rightarrow> error + loc_stringpool"

text \<open>
  \<open>mmap(NULL, length, PROT_READ, _, fileno(f), offset)\<close>: \<open>Inl errno\<close> for \<open>MAP_FAILED\<close>,
  otherwise the mapped bytes of the file. A mapping may reach beyond the end of the file;
  the bytes there are not in the list, and reading them is a \<open>Segfault\<close>.
\<close>

definition mmap :: "env \<Rightarrow> FILE \<Rightarrow> nat \<Rightarrow> nat \<Rightarrow> int + byte list" where
  "mmap e f len off =
     (case mmap_errno e len off of
        Some errno \<Rightarrow> Inl errno
      | None \<Rightarrow> Inr (take len (drop off (contents f))))"

subsection \<open>Magic and AS objects\<close>

text \<open>
  Modelled from the spec: \<open>LOC_DATABASE_MAGIC\<close> and \<open>struct loc_database_magic\<close> are
  declared in \<open>format.h\<close>, which is not among the sources. The spec: the file begins with a
  9-byte magic, the 7 ASCII bytes \<open>LOCDBXX\<close> followed by a big-endian \<open>u16\<close> version.
\<close>

definition LOC_DATABASE_MAGIC :: "byte list" where
  "LOC_DATABASE_MAGIC = [0x4C, 0x4F, 0x43, 0x44, 0x42, 0x58, 0x58]"

definition sizeof_magic :: nat where
  "sizeof_magic = 9"

record loc_database_magic =
  m_magic :: "byte list"
  m_version :: "byte list"

definition magic_of_bytes :: "byte list \<Rightarrow> loc_database_magic" where
  "magic_of_bytes bs = \<lparr>m_magic = take 7 bs, m_version = take 2 (drop 7 bs)\<rparr>"

text \<open>
  Modelled from the spec: \<open>as.c\<close> and \<open>struct loc_database_as_v0\<close> are not among the
  sources. The spec: an AS record is \<open>(asn: u32, name_offset: u32)\<close>, 8 bytes, big-endian;
  \<open>get(asn)\<close> returns the record, its name resolved through the pool.
\<close>

definition sizeof_as_v0 :: nat where
  "sizeof_as_v0 = 8"

record loc_as =
  as_pool :: "loc_stringpool option"
  as_number :: "32 word"
  as_name :: "32 word"

definition loc_as_new_from_database_v0 :: "loc_stringpool option \<Rightarrow> byte list \<Rightarrow> loc_as" where
  "loc_as_new_from_database_v0 pool dbobj =
     \<lparr>as_pool = pool, as_number = ntohl (take 4 dbobj), as_name = ntohl (take 4 (drop 4 dbobj))\<rparr>"

definition loc_as_get_number :: "loc_as \<Rightarrow> 32 word" where
  "loc_as_get_number a = as_number a"

definition loc_as_get_name :: "loc_as \<Rightarrow> byte list option" where
  "loc_as_get_name a =
     (case as_pool a of None \<Rightarrow> None | Some pool \<Rightarrow> loc_stringpool_get pool (unat (as_name a)))"

subsection \<open>Opening\<close>

text \<open>
  \<open>struct loc_database\<close>; the member \<open>file\<close> is \<open>db_file\<close> here. \<open>as_v0\<close> is \<open>None\<close> for the null pointer, otherwise the bytes of
  the mapped AS section; likewise \<open>pool\<close>.
\<close>

record loc_database =
  refcount :: int
  db_file :: FILE
  version :: "32 word"
  created_at :: "64 word"
  vendor :: off_t
  description :: off_t
  as_v0 :: "byte list option"
  as_count :: size_t
  pool :: "loc_stringpool option"

definition loc_database_read_magic :: "loc_database \<Rightarrow> error + loc_database" where
  "loc_database_read_magic db =
     (let (bytes, f) = fread sizeof_magic (db_file db);
          magic = magic_of_bytes bytes
      in if length bytes < sizeof_magic then Inl (Error (- ENOMSG))
         else if LOC_DATABASE_MAGIC = take (length LOC_DATABASE_MAGIC) (m_magic magic)
           then Inr (db\<lparr>db_file := f, version := ucast (ntohs (m_version magic))\<rparr>)
         else Inl (Error 1))"

definition loc_database_read_as_section_v0 ::
    "env \<Rightarrow> loc_database \<Rightarrow> off_t \<Rightarrow> size_t \<Rightarrow> error + loc_database" where
  "loc_database_read_as_section_v0 e db as_offset as_length =
     (if as_length > 0 then
        (case mmap e (db_file db) (unat as_length) (unat as_offset) of
           Inl errno \<Rightarrow> Inl (Error (- errno))
         | Inr m \<Rightarrow> Inr (db\<lparr>as_v0 := Some m, as_count := as_length div word_of_nat sizeof_as_v0\<rparr>))
      else Inr (db\<lparr>as_count := as_length div word_of_nat sizeof_as_v0\<rparr>))"

definition loc_database_read_header_v0 :: "env \<Rightarrow> loc_database \<Rightarrow> error + loc_database" where
  "loc_database_read_header_v0 e db =
     (let (bytes, f) = fread (sizeof_header_v0 e) (db_file db);
          header = header_v0_of_bytes e bytes
      in if length bytes < sizeof_header_v0 e then Inl (Error (- ENOMSG))
         else
           let db1 = db\<lparr>db_file := f,
                  created_at := be64toh (h_created_at header),
                  vendor := ucast (ntohl (h_vendor header)),
                  description := ucast (ntohl (h_description header))\<rparr>;
               pool_offset = ucast (ntohl (h_pool_offset header));
               pool_length = ucast (ntohl (h_pool_length header));
               db2 = db1\<lparr>pool := Some loc_stringpool_new\<rparr>
           in case loc_stringpool_read e loc_stringpool_new (db_file db2) pool_offset pool_length of
                Inl r \<Rightarrow> Inl r
              | Inr p \<Rightarrow>
                  let as_offset = ucast (ntohl (h_as_offset header));
                      as_length = ucast (ntohl (h_as_length header))
                  in loc_database_read_as_section_v0 e (db2\<lparr>pool := Some p\<rparr>) as_offset as_length)"

definition loc_database_read_header :: "env \<Rightarrow> loc_database \<Rightarrow> error + loc_database" where
  "loc_database_read_header e db =
     (if version db = 0 then loc_database_read_header_v0 e db else Inl (Error 1))"

text \<open>
  \<open>loc_database_new\<close>: the object comes zeroed from \<open>calloc\<close>; the stream is a duplicate
  of the caller's and shares its read position. \<open>Inr db\<close> is the return value \<open>0\<close> with
  \<open>*database = db\<close>; on every other path \<open>*database\<close> is not assigned.
\<close>

definition loc_database_new :: "env \<Rightarrow> FILE \<Rightarrow> error + loc_database" where
  "loc_database_new e f =
     (if calloc_fails e then Inl (Error (- ENOMEM))
      else case fdopen_errno e of
        Some errno \<Rightarrow> Inl (Error (- errno))
      | None \<Rightarrow>
          let db = \<lparr>refcount = 1, db_file = f, version = 0, created_at = 0, vendor = 0,
                    description = 0, as_v0 = None, as_count = 0, pool = None\<rparr>
          in case loc_database_read_magic db of
               Inl r \<Rightarrow> Inl r
             | Inr db' \<Rightarrow> loc_database_read_header e db')"

definition loc_database_count_as :: "loc_database \<Rightarrow> size_t" where
  "loc_database_count_as db = as_count db"

subsection \<open>Looking up an AS\<close>

text \<open>The object at \<open>db->as_v0 + pos\<close>, if the mapping holds all of its bytes.\<close>

definition as_v0_at :: "byte list option \<Rightarrow> nat \<Rightarrow> byte list option" where
  "as_v0_at m pos =
     (case m of
        None \<Rightarrow> None
      | Some bytes \<Rightarrow>
          if sizeof_as_v0 * pos + sizeof_as_v0 \<le> length bytes
          then Some (take sizeof_as_v0 (drop (sizeof_as_v0 * pos) bytes))
          else None)"

definition loc_database_fetch_as :: "loc_database \<Rightarrow> off_t \<Rightarrow> error + loc_as" where
  "loc_database_fetch_as db pos =
     (if pos \<ge> as_count db then Inl (Error (- EINVAL))
      else if version db = 0 then
        (case as_v0_at (as_v0 db) (unat pos) of
           None \<Rightarrow> Inl Segfault
         | Some dbobj \<Rightarrow> Inr (loc_as_new_from_database_v0 (pool db) dbobj))
      else Inl (Error (- 1)))"

text \<open>
  The loop of \<open>loc_database_get_as\<close>. The first argument bounds the number of iterations:
  \<open>None\<close> means that the loop has not finished within that many. \<open>Inr None\<close> is the return
  value \<open>0\<close> with \<open>*as = NULL\<close>. The division \<open>/ 2\<close> truncates towards zero. An overflow
  of the signed sum \<open>lo + hi\<close> is undefined in C; the model takes the wrap-around at 64
  bits, which needs \<open>as_count\<close> above \<open>2 ^ 62\<close> to happen.
\<close>

fun loc_database_get_as_loop ::
    "nat \<Rightarrow> loc_database \<Rightarrow> 32 word \<Rightarrow> off_t \<Rightarrow> off_t \<Rightarrow> (error + loc_as option) option" where
  "loc_database_get_as_loop 0 db number lo hi =
     (if lo \<le>s hi then None else Some (Inr None))"
| "loc_database_get_as_loop (Suc n) db number lo hi =
     (if lo \<le>s hi then
        (let i = word_of_int (sint (lo + hi) sdiv 2) in
         case loc_database_fetch_as db i of
           Inl r \<Rightarrow> Some (Inl r)
         | Inr a \<Rightarrow>
             let as_number = loc_as_get_number a in
             if as_number = number then Some (Inr (Some a))
             else if as_number < number
               then loc_database_get_as_loop n db number (i + 1) hi
               else loc_database_get_as_loop n db number lo (i - 1))
      else Some (Inr None))"

definition loc_database_get_as ::
    "nat \<Rightarrow> loc_database \<Rightarrow> 32 word \<Rightarrow> (error + loc_as option) option" where
  "loc_database_get_as n db number = loc_database_get_as_loop n db number 0 (as_count db - 1)"

text \<open>
  The states \<open>(lo, hi)\<close> in which the loop is entered when it iterates at all:
  \<open>0 \<le> lo \<le> hi + 1\<close> and \<open>hi < as_count\<close>, with \<open>lo\<close> at most \<open>2 ^ 62\<close> and \<open>as_count\<close> at
  most \<open>2 ^ 63\<close>.
\<close>

definition search_interval :: "loc_database \<Rightarrow> off_t \<Rightarrow> off_t \<Rightarrow> bool" where
  "search_interval db lo hi \<longleftrightarrow>
     0 \<le> sint lo \<and> sint lo \<le> 2 ^ 62 \<and> sint lo \<le> sint hi + 1
     \<and> sint hi < uint (as_count db) \<and> unat (as_count db) \<le> 2 ^ 63"

text \<open>
  The AS table of a database as the list of its \<open>as_count\<close> records, when the mapping
  holds all of them.
\<close>

definition as_table :: "loc_database \<Rightarrow> loc_as list option" where
  "as_table db =
     (let idx = [0 ..< unat (as_count db)] in
      if list_all (\<lambda>i. as_v0_at (as_v0 db) i \<noteq> None) idx
      then Some (map (\<lambda>i. loc_as_new_from_database_v0 (pool db) (the (as_v0_at (as_v0 db) i))) idx)
      else None)"


subsection \<open>An environment and files to evaluate the model on\<close>

text \<open>
  A header of 32 bytes, the seven members in the order in which the code reads them.
  \<open>mmap\<close> as on Linux with pages of 4096 bytes: it fails with \<open>EINVAL\<close> for the length 0
  and for an offset that is not a multiple of the page size, and maps otherwise, also
  beyond the end of the file. The pool reader checks that the declared range lies within
  the file, fails if it does not, and otherwise yields the bytes of the range.
\<close>

definition example_stringpool_read ::
    "loc_stringpool \<Rightarrow> FILE \<Rightarrow> off_t \<Rightarrow> size_t \<Rightarrow> error + loc_stringpool" where
  "example_stringpool_read p f off len =
     (if unat off + unat len \<le> length (contents f)
      then Inr (take (unat len) (drop (unat off) (contents f)))
      else Inl (Error (- EINVAL)))"

definition example_header_v0_of_bytes :: "byte list \<Rightarrow> loc_database_header_v0" where
  "example_header_v0_of_bytes bs =
     \<lparr>h_created_at = take 8 bs,
      h_vendor = take 4 (drop 8 bs),
      h_description = take 4 (drop 12 bs),
      h_pool_offset = take 4 (drop 16 bs),
      h_pool_length = take 4 (drop 20 bs),
      h_as_offset = take 4 (drop 24 bs),
      h_as_length = take 4 (drop 28 bs)\<rparr>"

definition example_env :: env where
  "example_env =
     \<lparr>calloc_fails = False,
      fdopen_errno = None,
      mmap_errno = (\<lambda>len off. if len = 0 \<or> off mod 4096 \<noteq> 0 then Some EINVAL else None),
      sizeof_header_v0 = 32,
      header_v0_of_bytes = example_header_v0_of_bytes,
      loc_stringpool_read = example_stringpool_read\<rparr>"

text \<open>
  A file image: magic, version, the header members (\<open>created_at\<close> is 0), then the pool at
  offset 4096 and the AS section at offset 8192.
\<close>

definition example_image ::
    "byte list \<Rightarrow> byte list \<Rightarrow> byte list \<Rightarrow> byte list \<Rightarrow> byte list \<Rightarrow> byte list \<Rightarrow> FILE" where
  "example_image ver pool_offset as_offset as_length pool_data as_data =
     \<lparr>contents =
        LOC_DATABASE_MAGIC @ ver
        @ [0, 0, 0, 0, 0, 0, 0, 0] @ [0, 0, 0, 1] @ [0, 0, 0, 6]
        @ pool_offset @ [0, 0, 0, 16] @ as_offset @ as_length
        @ replicate 4055 0 @ pool_data @ replicate (4096 - length pool_data) 0 @ as_data,
      offset = 0\<rparr>"

text \<open>
  The pool holds the strings \<open>""\<close>, \<open>"TEST"\<close> and \<open>"A database"\<close>; the AS section holds
  the records (64512, 1), (65001, 1), (65002, 0) and four more bytes.
\<close>

definition example_pool :: "byte list" where
  "example_pool = [0, 0x54, 0x45, 0x53, 0x54, 0, 0x41, 0x20, 0x64, 0x62, 0, 0, 0, 0, 0, 0]"

definition example_as_section :: "byte list" where
  "example_as_section =
     [0, 0, 0xFC, 0x00, 0, 0, 0, 1,
      0, 0, 0xFD, 0xE9, 0, 0, 0, 1,
      0, 0, 0xFD, 0xEA, 0, 0, 0, 0,
      0xDE, 0xAD, 0xBE, 0xEF]"

definition example_file :: FILE where
  "example_file =
     example_image [0, 0] [0, 0, 0x10, 0] [0, 0, 0x20, 0] [0, 0, 0, 28]
       example_pool example_as_section"


definition example_file_v1 :: FILE where
  "example_file_v1 =
     example_image [0, 1] [0, 0, 0x10, 0] [0, 0, 0x20, 0] [0, 0, 0, 28]
       example_pool example_as_section"

text \<open>The header declares the AS section at the offset of the pool, 16 bytes long.\<close>

definition example_file_overlap :: FILE where
  "example_file_overlap =
     example_image [0, 0] [0, 0, 0x10, 0] [0, 0, 0x10, 0] [0, 0, 0, 16]
       example_pool example_as_section"

text \<open>
  The file ends with the pool, after 4112 bytes: the pool lies within the file, and the
  AS section, declared at offset 8192 with 28 bytes, lies beyond its end.
\<close>

definition example_file_as_outside :: FILE where
  "example_file_as_outside = example_file\<lparr>contents := take 4112 (contents example_file)\<rparr>"

text \<open>The header declares an AS section of length 0.\<close>

definition example_file_no_as :: FILE where
  "example_file_no_as =
     example_image [0, 0] [0, 0, 0x10, 0] [0, 0, 0x20, 0] [0, 0, 0, 0] example_pool []"

subsection \<open>What a file declares\<close>

text \<open>
  The magic bytes, the version and the header that \<open>loc_database_new\<close> finds at the read
  position of a stream.
\<close>

definition magic_matches :: "FILE \<Rightarrow> bool" where
  "magic_matches f \<longleftrightarrow> take 7 (drop (offset f) (contents f)) = LOC_DATABASE_MAGIC"

definition declared_version :: "FILE \<Rightarrow> 16 word" where
  "declared_version f = ntohs (take 2 (drop (offset f + 7) (contents f)))"

definition declared_header :: "env \<Rightarrow> FILE \<Rightarrow> loc_database_header_v0" where
  "declared_header e f =
     header_v0_of_bytes e (take (sizeof_header_v0 e) (drop (offset f + sizeof_magic) (contents f)))"

text \<open>
  What the pool reader returns for the pool that the file declares; the stream stands
  behind the header when the reader is called.
\<close>

definition read_declared_pool :: "env \<Rightarrow> FILE \<Rightarrow> error + loc_stringpool" where
  "read_declared_pool e f =
     loc_stringpool_read e loc_stringpool_new
       (f\<lparr>offset := offset f + sizeof_magic + sizeof_header_v0 e\<rparr>)
       (ucast (ntohl (h_pool_offset (declared_header e f))))
       (ucast (ntohl (h_pool_length (declared_header e f))))"

definition declared_pool_offset :: "env \<Rightarrow> FILE \<Rightarrow> nat" where
  "declared_pool_offset e f = unat (ntohl (h_pool_offset (declared_header e f)))"

definition declared_pool_length :: "env \<Rightarrow> FILE \<Rightarrow> nat" where
  "declared_pool_length e f = unat (ntohl (h_pool_length (declared_header e f)))"

definition declared_as_offset :: "env \<Rightarrow> FILE \<Rightarrow> nat" where
  "declared_as_offset e f = unat (ntohl (h_as_offset (declared_header e f)))"

definition declared_as_length :: "env \<Rightarrow> FILE \<Rightarrow> nat" where
  "declared_as_length e f = unat (ntohl (h_as_length (declared_header e f)))"

section \<open>Properties of the address primitives\<close>

subsection \<open>Comparison\<close>

lemma be_val_bound: "be_val bs < 256 ^ length bs"
proof (induction bs)
  case Nil
  show ?case by simp
next
  case (Cons b bs)
  have "unat b \<le> 255"
    using unsigned_less [of b, where ?'a = nat] by simp
  then have "unat b * 256 ^ length bs \<le> 255 * 256 ^ length bs"
    by (rule mult_le_mono1)
  moreover have "be_val bs < 256 ^ length bs"
    by (rule Cons.IH)
  ultimately have "unat b * 256 ^ length bs + be_val bs < 255 * 256 ^ length bs + 256 ^ length bs"
    by linarith
  then show ?case by simp
qed

lemma be_val_Cons_less:
  assumes "length xs = length ys" and "x < y"
  shows "be_val (x # xs) < be_val (y # ys)"
proof -
  have "Suc (unat x) \<le> unat y"
    using assms(2) by (simp add: word_less_nat_alt)
  then have "Suc (unat x) * 256 ^ length xs \<le> unat y * 256 ^ length xs"
    by (rule mult_le_mono1)
  moreover have "be_val xs < 256 ^ length xs"
    by (rule be_val_bound)
  ultimately have "unat x * 256 ^ length xs + be_val xs < unat y * 256 ^ length xs"
    by simp
  then show ?thesis
    using assms(1) by simp
qed

lemma be_val_inj:
  "length xs = length ys \<Longrightarrow> be_val xs = be_val ys \<Longrightarrow> xs = ys"
proof (induction xs ys rule: list_induct2)
  case Nil
  show ?case by simp
next
  case (Cons x xs y ys)
  have "\<not> x < y"
    using be_val_Cons_less [OF Cons.hyps(1), of x y] Cons.prems by auto
  moreover have "\<not> y < x"
    using be_val_Cons_less [OF Cons.hyps(1) [symmetric], of y x] Cons.prems by auto
  ultimately have "x = y" by auto
  with Cons show ?case by simp
qed

lemma in6_addr_cmp_loop_range: "in6_addr_cmp_loop i a1 a2 \<in> {- 1, 0, 1}"
  by (induction i a1 a2 rule: in6_addr_cmp_loop.induct) (subst in6_addr_cmp_loop.simps, simp)

lemma in6_addr_cmp_loop_sgn:
  assumes "length a1 = 16" and "length a2 = 16" and "i \<le> 16"
  shows "in6_addr_cmp_loop i a1 a2 =
           (if be_val (drop i a1) > be_val (drop i a2) then 1
            else if be_val (drop i a1) < be_val (drop i a2) then - 1 else 0)"
  using assms
proof (induction i a1 a2 rule: in6_addr_cmp_loop.induct)
  case (1 i a1 a2)
  show ?case
  proof (cases "i < 16")
    case False
    with "1.prems" show ?thesis
      by (subst in6_addr_cmp_loop.simps) simp
  next
    case True
    have d1: "drop i a1 = a1 ! i # drop (Suc i) a1"
      using True "1.prems" by (simp add: Cons_nth_drop_Suc)
    have d2: "drop i a2 = a2 ! i # drop (Suc i) a2"
      using True "1.prems" by (simp add: Cons_nth_drop_Suc)
    have len: "length (drop (Suc i) a1) = length (drop (Suc i) a2)"
      using "1.prems" by simp
    consider (gt) "a2 ! i < a1 ! i" | (lt) "a1 ! i < a2 ! i" | (eq) "a1 ! i = a2 ! i"
      by (metis linorder_neqE)
    then show ?thesis
    proof cases
      case gt
      have "be_val (drop i a2) < be_val (drop i a1)"
        unfolding d1 d2 using len gt by (intro be_val_Cons_less) simp_all
      with gt True show ?thesis
        by (subst in6_addr_cmp_loop.simps) simp
    next
      case lt
      have "be_val (drop i a1) < be_val (drop i a2)"
        unfolding d1 d2 using len lt by (intro be_val_Cons_less) simp_all
      with lt True show ?thesis
        by (subst in6_addr_cmp_loop.simps) auto
    next
      case eq
      have ih: "in6_addr_cmp_loop (i + 1) a1 a2 =
           (if be_val (drop (i + 1) a1) > be_val (drop (i + 1) a2) then 1
            else if be_val (drop (i + 1) a1) < be_val (drop (i + 1) a2) then - 1 else 0)"
        using True eq "1.prems" by (intro "1.IH") simp_all
      have "in6_addr_cmp_loop i a1 a2 = in6_addr_cmp_loop (i + 1) a1 a2"
        using True eq by (subst in6_addr_cmp_loop.simps) simp
      also note ih
      finally show ?thesis
        using eq len by (simp add: d1 d2)
    qed
  qed
qed

lemma in6_addr_cmp_sgn:
  assumes "length a1 = 16" and "length a2 = 16"
  shows "in6_addr_cmp a1 a2 =
           (if be_val a1 > be_val a2 then 1 else if be_val a1 < be_val a2 then - 1 else 0)"
  using in6_addr_cmp_loop_sgn [OF assms, of 0] by (simp add: in6_addr_cmp_def)

text \<open>
  Claim C5. For all 128-bit addresses \<open>A\<close> and \<open>B\<close>, \<open>in6_addr_cmp A B\<close> is \<open>-1\<close>, \<open>0\<close>
  or \<open>1\<close>; it is \<open>0\<close> exactly when the addresses are equal byte for byte, \<open>1\<close> exactly
  when \<open>A\<close> is greater than \<open>B\<close> as a big-endian unsigned integer and \<open>-1\<close> exactly when
  it is less; hence \<open>in6_addr_cmp A B = - in6_addr_cmp B A\<close>.
\<close>

theorem in6_addr_cmp_correct:
  assumes "length A = 16" and "length B = 16"
  shows "in6_addr_cmp A B \<in> {- 1, 0, 1}
       \<and> (in6_addr_cmp A B = 0 \<longleftrightarrow> A = B)
       \<and> (in6_addr_cmp A B = 1 \<longleftrightarrow> be_val B < be_val A)
       \<and> (in6_addr_cmp A B = - 1 \<longleftrightarrow> be_val A < be_val B)
       \<and> in6_addr_cmp A B = - in6_addr_cmp B A"
proof -
  have eq: "be_val A = be_val B \<longleftrightarrow> A = B"
    using be_val_inj [of A B] assms by auto
  show ?thesis
    unfolding in6_addr_cmp_sgn [OF assms] in6_addr_cmp_sgn [OF assms(2) assms(1)]
    using eq by auto
qed

theorem in6_addr_cmp_correct_witness:
  "in6_addr_cmp [0,0,0,0,0,0,0,0,0,0,255,255,10,0,0,1] [0,0,0,0,0,0,0,0,0,0,255,255,9,255,255,255] = 1
   \<and> in6_addr_cmp [0,0,0,0,0,0,0,0,0,0,255,255,9,255,255,255] [0,0,0,0,0,0,0,0,0,0,255,255,10,0,0,1] = - 1"
  using in6_addr_cmp_correct [of "[0,0,0,0,0,0,0,0,0,0,255,255,10,0,0,1]"
      "[0,0,0,0,0,0,0,0,0,0,255,255,9,255,255,255]"]
  by simp

subsection \<open>Prefix masks\<close>

lemma loc_prefix_to_bitmask_loop_spec:
  assumes "length bitmask = 16" and "j \<le> 16" and "i \<le> 8 * (16 - int j)"
  shows "\<exists>m. loc_prefix_to_bitmask_loop i j bitmask = Some m \<and> length m = 16 \<and>
           (\<forall>k<16. m ! k =
              (if k < j then bitmask ! k
               else if 8 * (int k - int j) + 8 \<le> i then 0xff
               else if 8 * (int k - int j) < i
                 then word_of_int (push_bit (nat (8 - (i - 8 * (int k - int j)))) (0xff :: int))
               else bitmask ! k))"
  using assms
proof (induction i j bitmask rule: loc_prefix_to_bitmask_loop.induct)
  case (1 i j bitmask)
  show ?case
  proof (cases "0 < i")
    case False
    then show ?thesis
      using "1.prems" by (subst loc_prefix_to_bitmask_loop.simps) auto
  next
    case True
    with "1.prems" have j: "j < 16" by auto
    let ?v = "if 8 \<le> i then 0xff else word_of_int (push_bit (nat (8 - i)) (0xff :: int)) :: byte"
    let ?b = "bitmask[j := ?v]"
    have "\<exists>m. loc_prefix_to_bitmask_loop (i - 8) (j + 1) ?b = Some m \<and> length m = 16 \<and>
           (\<forall>k<16. m ! k =
              (if k < j + 1 then ?b ! k
               else if 8 * (int k - int (j + 1)) + 8 \<le> i - 8 then 0xff
               else if 8 * (int k - int (j + 1)) < i - 8
                 then word_of_int (push_bit (nat (8 - (i - 8 - 8 * (int k - int (j + 1))))) (0xff :: int))
               else ?b ! k))"
      using True j "1.prems" by (intro "1.IH") auto
    then obtain m where m: "loc_prefix_to_bitmask_loop (i - 8) (j + 1) ?b = Some m" "length m = 16"
      and mk: "\<And>k. k < 16 \<Longrightarrow> m ! k =
              (if k < j + 1 then ?b ! k
               else if 8 * (int k - int (j + 1)) + 8 \<le> i - 8 then 0xff
               else if 8 * (int k - int (j + 1)) < i - 8
                 then word_of_int (push_bit (nat (8 - (i - 8 - 8 * (int k - int (j + 1))))) (0xff :: int))
               else ?b ! k)"
      by blast
    have step: "loc_prefix_to_bitmask_loop i j bitmask = Some m"
      using True j m(1) by (subst loc_prefix_to_bitmask_loop.simps) simp
    have "m ! k =
              (if k < j then bitmask ! k
               else if 8 * (int k - int j) + 8 \<le> i then 0xff
               else if 8 * (int k - int j) < i
                 then word_of_int (push_bit (nat (8 - (i - 8 * (int k - int j)))) (0xff :: int))
               else bitmask ! k)" if k: "k < 16" for k
    proof -
      consider (lt) "k < j" | (eq) "k = j" | (gt) "j < k" by linarith
      then show ?thesis
      proof cases
        case lt
        then show ?thesis using mk [OF k] by simp
      next
        case eq
        then show ?thesis using mk [OF k] True "1.prems"(1) j by simp
      next
        case gt
        have a: "8 * (int k - int (j + 1)) = 8 * (int k - int j) - 8" by simp
        from gt show ?thesis
          unfolding mk [OF k] a by (simp add: algebra_simps)
      qed
    qed
    with step m(2) show ?thesis by blast
  qed
qed

lemma get_bit_eq: "in6_addr_get_bit a i = (if bit (a ! (i div 8)) (7 - i mod 8) then 1 else 0)"
  by (simp add: in6_addr_get_bit_def and_one_eq bit_iff_odd_drop_bit mod_2_eq_odd)

lemma bit_shifted_ff:
  assumes "0 < r" and "r < 8" and "n < 8"
  shows "bit (word_of_int (push_bit (nat (8 - r)) (0xff :: int)) :: byte) n \<longleftrightarrow> nat (8 - r) \<le> n"
proof -
  have e: "(0xff :: int) = mask 8" by (simp add: mask_eq_exp_minus_1)
  show ?thesis
    unfolding e using assms by (auto simp add: bit_word_of_int_iff bit_push_bit_iff bit_mask_iff)
qed

lemma bit_ff: "n < 8 \<Longrightarrow> bit (0xff :: byte) n"
proof -
  have e: "(0xff :: byte) = mask 8" by (simp add: mask_eq_exp_minus_1)
  show "n < 8 \<Longrightarrow> bit (0xff :: byte) n"
    unfolding e by (simp add: bit_mask_iff)
qed

lemma sint_eq_uint_small:
  fixes w :: "'a::len word"
  assumes "uint w < 2 ^ (LENGTH('a) - Suc 0)"
  shows "sint w = uint w"
proof -
  have "- (2 ^ (LENGTH('a) - Suc 0)) \<le> uint w"
    by (rule order_trans [of _ 0]) simp_all
  then show ?thesis
    using assms by (simp add: sint_uint signed_take_bit_int_eq_self)
qed

lemma loc_prefix_to_bitmask_bytes:
  assumes "prefix \<le> 128"
  shows "\<exists>m. loc_prefix_to_bitmask prefix = Some m \<and> length m = 16 \<and>
           (\<forall>k<16. m ! k =
              (if 8 * k + 8 \<le> unat prefix then 0xff
               else if 8 * k < unat prefix
                 then word_of_int (push_bit (8 - (unat prefix - 8 * k)) (0xff :: int))
               else 0))"
proof -
  have le: "uint prefix \<le> 128"
    using assms by (simp add: word_le_def)
  then have "uint prefix < 2 ^ (LENGTH(32) - Suc 0)"
    by simp
  then have s: "sint prefix = uint prefix"
    by (rule sint_eq_uint_small)
  have u: "uint prefix = int (unat prefix)"
    by simp
  have "length (replicate 16 (0 :: byte)) = 16" and "(0 :: nat) \<le> 16"
    and "sint prefix \<le> 8 * (16 - int 0)"
    using le by (simp_all add: s)
  from loc_prefix_to_bitmask_loop_spec [OF this]
  obtain m where m: "loc_prefix_to_bitmask_loop (sint prefix) 0 (replicate 16 0) = Some m"
      "length m = 16"
    and mk: "\<And>k. k < 16 \<Longrightarrow> m ! k =
              (if k < 0 then replicate 16 (0 :: byte) ! k
               else if 8 * (int k - int 0) + 8 \<le> sint prefix then 0xff
               else if 8 * (int k - int 0) < sint prefix
                 then word_of_int (push_bit (nat (8 - (sint prefix - 8 * (int k - int 0)))) (0xff :: int))
               else replicate 16 (0 :: byte) ! k)"
    by blast
  have "m ! k =
              (if 8 * k + 8 \<le> unat prefix then 0xff
               else if 8 * k < unat prefix
                 then word_of_int (push_bit (8 - (unat prefix - 8 * k)) (0xff :: int))
               else 0)" if k: "k < 16" for k
  proof -
    have n: "nat (8 - (int (unat prefix) - 8 * int k)) = 8 - (unat prefix - 8 * k)"
      if "8 * k < unat prefix"
      using that by linarith
    have c1: "8 * (int k - int 0) + 8 \<le> sint prefix \<longleftrightarrow> 8 * k + 8 \<le> unat prefix"
      unfolding s u by arith
    have c2: "8 * (int k - int 0) < sint prefix \<longleftrightarrow> 8 * k < unat prefix"
      unfolding s u by arith
    have c3: "sint prefix - 8 * (int k - int 0) = int (unat prefix) - 8 * int k"
      unfolding s u by arith
    show ?thesis
      unfolding mk [OF k] c1 c2 c3 using k n by simp
  qed
  with m show ?thesis
    unfolding loc_prefix_to_bitmask_def by blast
qed


lemma loc_prefix_to_bitmask_bits:
  assumes m: "loc_prefix_to_bitmask prefix = Some m" and "prefix \<le> 128" and i: "i < 128"
  shows "bit (m ! (i div 8)) (7 - i mod 8) \<longleftrightarrow> i < unat prefix"
proof -
  define p where "p = unat prefix"
  define k where "k = i div 8"
  define q where "q = i mod 8"
  have i_eq: "i = 8 * k + q" and q: "q < 8" and k: "k < 16"
    using i by (simp_all add: k_def q_def)
  have mk: "m ! k = (if 8 * k + 8 \<le> p then 0xff
               else if 8 * k < p
                 then word_of_int (push_bit (8 - (p - 8 * k)) (0xff :: int))
               else 0)"
    using loc_prefix_to_bitmask_bytes [OF assms(2)] m k unfolding p_def by auto
  consider (full) "8 * k + 8 \<le> p" | (part) "8 * k < p" "p < 8 * k + 8" | (none) "p \<le> 8 * k"
    by linarith
  then have "bit (m ! k) (7 - q) \<longleftrightarrow> i < p"
  proof cases
    case full
    have "bit (0xff :: byte) (7 - q)"
      by (rule bit_ff) simp
    then show ?thesis
      using full q by (simp add: mk i_eq)
  next
    case part
    define r where "r = int (p - 8 * k)"
    have r: "0 < r" "r < 8" using part by (simp_all add: r_def)
    have "bit (word_of_int (push_bit (nat (8 - r)) (0xff :: int)) :: byte) (7 - q)
       \<longleftrightarrow> nat (8 - r) \<le> 7 - q"
      using r by (intro bit_shifted_ff) simp_all
    moreover have "nat (8 - r) = 8 - (p - 8 * k)"
      by (simp add: r_def)
    moreover have "8 - (p - 8 * k) \<le> 7 - q \<longleftrightarrow> i < p"
      using part q unfolding i_eq by linarith
    ultimately show ?thesis
      using part by (simp add: mk)
  next
    case none
    then show ?thesis
      by (simp add: mk i_eq)
  qed
  then show ?thesis
    by (simp add: p_def k_def q_def)
qed

text \<open>
  Claim C6. For every prefix length \<open>p \<le> 128\<close>, \<open>loc_prefix_to_bitmask p\<close> returns the mask
  whose bit \<open>i\<close>, counted from the most significant bit, is 1 for \<open>i < p\<close> and 0 for
  \<open>i \<ge> p\<close>; \<open>p = 0\<close> gives the all-zero mask and \<open>p = 128\<close> the all-ones mask.
\<close>

theorem loc_prefix_to_bitmask_correct:
  assumes "prefix \<le> 128"
  shows "(\<exists>m. loc_prefix_to_bitmask prefix = Some m \<and> length m = 16 \<and>
            (\<forall>i<128. in6_addr_get_bit m i = (if i < unat prefix then 1 else 0)))
       \<and> loc_prefix_to_bitmask 0 = Some (replicate 16 0)
       \<and> loc_prefix_to_bitmask 128 = Some (replicate 16 0xff)"
proof (intro conjI)
  obtain m where m: "loc_prefix_to_bitmask prefix = Some m" "length m = 16"
    using loc_prefix_to_bitmask_bytes [OF assms] by blast
  have "in6_addr_get_bit m i = (if i < unat prefix then 1 else 0)" if "i < 128" for i
    using loc_prefix_to_bitmask_bits [OF m(1) assms that] by (simp add: get_bit_eq)
  with m show "\<exists>m. loc_prefix_to_bitmask prefix = Some m \<and> length m = 16 \<and>
            (\<forall>i<128. in6_addr_get_bit m i = (if i < unat prefix then 1 else 0))"
    by blast
  show "loc_prefix_to_bitmask 0 = Some (replicate 16 0)"
    by (simp add: loc_prefix_to_bitmask_def loc_prefix_to_bitmask_loop.simps)
  show "loc_prefix_to_bitmask 128 = Some (replicate 16 0xff)"
    by code_simp
qed

theorem loc_prefix_to_bitmask_correct_witness:
  "(13 :: 32 word) \<le> 128 \<and>
   (\<exists>m. loc_prefix_to_bitmask 13 = Some m \<and> length m = 16 \<and>
      (\<forall>i<128. in6_addr_get_bit m i = (if i < 13 then 1 else 0)))"
  using loc_prefix_to_bitmask_correct [of 13] by simp

subsection \<open>First and last address of a network\<close>


lemma s6_addr32_and_bytes:
  fixes a b :: in6_addr and i :: nat
  defines "w \<equiv> s6_addr32 a i AND s6_addr32 b i"
  shows "(ucast w :: byte) = a ! (4 * i) AND b ! (4 * i)"
    and "(ucast (drop_bit 8 w) :: byte) = a ! (4 * i + 1) AND b ! (4 * i + 1)"
    and "(ucast (drop_bit 16 w) :: byte) = a ! (4 * i + 2) AND b ! (4 * i + 2)"
    and "(ucast (drop_bit 24 w) :: byte) = a ! (4 * i + 3) AND b ! (4 * i + 3)"
  unfolding w_def s6_addr32_def
  by (rule bit_word_eqI; auto simp add: bit_simps dest: bit_imp_le_length)+

lemma s6_addr32_or_not_bytes:
  fixes a b :: in6_addr and i :: nat
  defines "w \<equiv> s6_addr32 a i OR NOT (s6_addr32 b i)"
  shows "(ucast w :: byte) = a ! (4 * i) OR NOT (b ! (4 * i))"
    and "(ucast (drop_bit 8 w) :: byte) = a ! (4 * i + 1) OR NOT (b ! (4 * i + 1))"
    and "(ucast (drop_bit 16 w) :: byte) = a ! (4 * i + 2) OR NOT (b ! (4 * i + 2))"
    and "(ucast (drop_bit 24 w) :: byte) = a ! (4 * i + 3) OR NOT (b ! (4 * i + 3))"
  unfolding w_def s6_addr32_def
  by (rule bit_word_eqI; auto simp add: bit_simps dest: bit_imp_le_length)+


lemma upt_0_4: "[0 ..< 4] = [0, 1, 2, Suc 2]"
  by (simp add: upt_rec numeral_eq_Suc)

lemma replicate_16: "replicate 16 x = [x, x, x, x, x, x, x, x, x, x, x, x, x, x, x, x]"
  by (simp add: numeral_eq_Suc)

lemma loc_address_and_bytes:
  "loc_address_and a m =
     [a ! 0 AND m ! 0, a ! 1 AND m ! 1, a ! 2 AND m ! 2, a ! 3 AND m ! 3,
      a ! 4 AND m ! 4, a ! 5 AND m ! 5, a ! 6 AND m ! 6, a ! 7 AND m ! 7,
      a ! 8 AND m ! 8, a ! 9 AND m ! 9, a ! 10 AND m ! 10, a ! 11 AND m ! 11,
      a ! 12 AND m ! 12, a ! 13 AND m ! 13, a ! 14 AND m ! 14, a ! 15 AND m ! 15]"
  unfolding loc_address_and_def upt_0_4 replicate_16
  by (simp only: fold.simps o_apply id_apply s6_addr32_update_def s6_addr32_and_bytes) (simp add: numeral_2_eq_2)

lemma loc_address_or_bytes:
  "loc_address_or a m =
     [a ! 0 OR NOT (m ! 0), a ! 1 OR NOT (m ! 1), a ! 2 OR NOT (m ! 2), a ! 3 OR NOT (m ! 3),
      a ! 4 OR NOT (m ! 4), a ! 5 OR NOT (m ! 5), a ! 6 OR NOT (m ! 6), a ! 7 OR NOT (m ! 7),
      a ! 8 OR NOT (m ! 8), a ! 9 OR NOT (m ! 9), a ! 10 OR NOT (m ! 10), a ! 11 OR NOT (m ! 11),
      a ! 12 OR NOT (m ! 12), a ! 13 OR NOT (m ! 13), a ! 14 OR NOT (m ! 14), a ! 15 OR NOT (m ! 15)]"
  unfolding loc_address_or_def upt_0_4 replicate_16
  by (simp only: fold.simps o_apply id_apply s6_addr32_update_def s6_addr32_or_not_bytes) (simp add: numeral_2_eq_2)

lemma less_16_cases:
  "k < 16 \<Longrightarrow> k \<in> {0, 1, 2, 3, 4, 5, 6, 7, 8, 9, 10, 11, 12, 13, 14, 15 :: nat}"
  by (simp only: insert_iff empty_iff) arith

lemma loc_address_and_nth:
  "k < 16 \<Longrightarrow> loc_address_and a m ! k = a ! k AND m ! k"
  using less_16_cases [of k] unfolding loc_address_and_bytes by auto

lemma loc_address_or_nth:
  "k < 16 \<Longrightarrow> loc_address_or a m ! k = a ! k OR NOT (m ! k)"
  using less_16_cases [of k] unfolding loc_address_or_bytes by auto

lemma loc_address_and_length: "length (loc_address_and a m) = 16"
  unfolding loc_address_and_bytes by simp

lemma loc_address_or_length: "length (loc_address_or a m) = 16"
  unfolding loc_address_or_bytes by simp


lemma be_val_mono:
  "list_all2 (\<le>) xs ys \<Longrightarrow> be_val xs \<le> be_val ys"
proof (induction xs ys rule: list_all2_induct)
  case Nil
  show ?case by simp
next
  case (Cons x xs y ys)
  have "unat x \<le> unat y"
    using Cons.hyps(1) by (simp add: word_le_nat_alt)
  then have "unat x * 256 ^ length xs \<le> unat y * 256 ^ length xs"
    by (rule mult_le_mono1)
  then have "unat x * 256 ^ length xs + be_val xs \<le> unat y * 256 ^ length xs + be_val ys"
    using Cons.IH by (rule add_mono)
  moreover have "length xs = length ys"
    using Cons.hyps(2) by (rule list_all2_lengthD)
  ultimately show ?case
    by simp
qed

lemma in6_addr_cmp_le:
  assumes "length a1 = 16" and "length a2 = 16" and "\<And>k. k < 16 \<Longrightarrow> a1 ! k \<le> a2 ! k"
  shows "in6_addr_cmp a1 a2 \<le> 0"
proof -
  have "list_all2 (\<le>) a1 a2"
    using assms by (simp add: list_all2_conv_all_nth)
  then have "be_val a1 \<le> be_val a2"
    by (rule be_val_mono)
  then show ?thesis
    by (simp add: in6_addr_cmp_sgn [OF assms(1,2)])
qed

text \<open>
  Claim C7. For every address \<open>A\<close> and prefix length \<open>p \<le> 128\<close> with mask
  \<open>M = loc_prefix_to_bitmask p\<close>: \<open>loc_address_and A M\<close> and \<open>loc_address_or A M\<close> agree
  with \<open>A\<close> on the first \<open>p\<close> bits; from bit \<open>p\<close> on, the former has only zeros and the
  latter only ones; and under \<open>in6_addr_cmp\<close> the former is at most \<open>A\<close> and \<open>A\<close> is at
  most the latter.
\<close>

theorem first_last_address:
  assumes "length A = 16" and "prefix \<le> 128"
  shows "\<exists>M. loc_prefix_to_bitmask prefix = Some M \<and>
           (\<forall>i < unat prefix.
               in6_addr_get_bit (loc_address_and A M) i = in6_addr_get_bit A i \<and>
               in6_addr_get_bit (loc_address_or A M) i = in6_addr_get_bit A i) \<and>
           (\<forall>i. unat prefix \<le> i \<and> i < 128 \<longrightarrow>
               in6_addr_get_bit (loc_address_and A M) i = 0 \<and>
               in6_addr_get_bit (loc_address_or A M) i = 1) \<and>
           in6_addr_cmp (loc_address_and A M) A \<le> 0 \<and>
           in6_addr_cmp A (loc_address_or A M) \<le> 0"
proof -
  obtain M where M: "loc_prefix_to_bitmask prefix = Some M" "length M = 16"
    using loc_prefix_to_bitmask_bytes [OF assms(2)] by blast
  have p: "unat prefix \<le> 128"
    using assms(2) by (simp add: word_le_nat_alt)
  have mbit: "bit (M ! (i div 8)) (7 - i mod 8) \<longleftrightarrow> i < unat prefix" if "i < 128" for i
    using M(1) assms(2) that by (rule loc_prefix_to_bitmask_bits)
  have band: "in6_addr_get_bit (loc_address_and A M) i =
      (if bit (A ! (i div 8)) (7 - i mod 8) \<and> i < unat prefix then 1 else 0)" if "i < 128" for i
  proof -
    have "i div 8 < 16" using that by simp
    then show ?thesis
      by (simp add: get_bit_eq loc_address_and_nth bit_and_iff mbit [OF that])
  qed
  have bor: "in6_addr_get_bit (loc_address_or A M) i =
      (if bit (A ! (i div 8)) (7 - i mod 8) \<or> \<not> i < unat prefix then 1 else 0)" if "i < 128" for i
  proof -
    have "i div 8 < 16" using that by simp
    moreover have "7 - i mod 8 < 8" by simp
    ultimately show ?thesis
      by (simp add: get_bit_eq loc_address_or_nth bit_or_iff bit_not_iff mbit [OF that])
  qed
  have 1: "in6_addr_get_bit (loc_address_and A M) i = in6_addr_get_bit A i \<and>
           in6_addr_get_bit (loc_address_or A M) i = in6_addr_get_bit A i" if "i < unat prefix" for i
  proof -
    have "i < 128" using that p by simp
    then show ?thesis
      using that by (simp add: band bor) (simp add: get_bit_eq)
  qed
  have 2: "in6_addr_get_bit (loc_address_and A M) i = 0 \<and>
           in6_addr_get_bit (loc_address_or A M) i = 1" if "unat prefix \<le> i \<and> i < 128" for i
    using that by (simp add: band bor)
  have 3: "in6_addr_cmp (loc_address_and A M) A \<le> 0"
    using assms(1) by (intro in6_addr_cmp_le) (simp_all add: loc_address_and_length loc_address_and_nth word_and_le2)
  have 4: "in6_addr_cmp A (loc_address_or A M) \<le> 0"
    using assms(1) by (intro in6_addr_cmp_le) (simp_all add: loc_address_or_length loc_address_or_nth le_word_or2)
  from M(1) 1 2 3 4 show ?thesis by blast
qed

theorem first_last_address_witness:
  "\<exists>M. loc_prefix_to_bitmask 108 = Some M \<and>
      loc_address_and [0,0,0,0,0,0,0,0,0,0,255,255,10,17,2,3] M
        = [0,0,0,0,0,0,0,0,0,0,255,255,10,16,0,0] \<and>
      loc_address_or [0,0,0,0,0,0,0,0,0,0,255,255,10,17,2,3] M
        = [0,0,0,0,0,0,0,0,0,0,255,255,10,31,255,255] \<and>
      in6_addr_cmp (loc_address_and [0,0,0,0,0,0,0,0,0,0,255,255,10,17,2,3] M)
        [0,0,0,0,0,0,0,0,0,0,255,255,10,17,2,3] \<le> 0 \<and>
      in6_addr_cmp [0,0,0,0,0,0,0,0,0,0,255,255,10,17,2,3]
        (loc_address_or [0,0,0,0,0,0,0,0,0,0,255,255,10,17,2,3] M) \<le> 0"
proof -
  have M: "loc_prefix_to_bitmask 108
      = Some [255,255,255,255,255,255,255,255,255,255,255,255,255,240,0,0]"
    by code_simp
  have "loc_address_and [0,0,0,0,0,0,0,0,0,0,255,255,10,17,2,3]
          [255,255,255,255,255,255,255,255,255,255,255,255,255,240,0,0]
      = [0,0,0,0,0,0,0,0,0,0,255,255,10,16,0,0]"
    and "loc_address_or [0,0,0,0,0,0,0,0,0,0,255,255,10,17,2,3]
          [255,255,255,255,255,255,255,255,255,255,255,255,255,240,0,0]
      = [0,0,0,0,0,0,0,0,0,0,255,255,10,31,255,255]"
    by (simp_all add: loc_address_and_bytes loc_address_or_bytes)
  then show ?thesis
    using first_last_address [of "[0,0,0,0,0,0,0,0,0,0,255,255,10,17,2,3]" 108]
    by (simp add: M)
qed


section \<open>Properties of opening\<close>

subsection \<open>What the functions compute\<close>

lemma fread_eq:
  "fread n f = (take n (drop (offset f) (contents f)),
                f\<lparr>offset := offset f + min n (length (contents f) - offset f)\<rparr>)"
  by (simp add: fread_def Let_def min_def)

lemma length_LOC_DATABASE_MAGIC: "length LOC_DATABASE_MAGIC = 7"
  by (simp add: LOC_DATABASE_MAGIC_def)

lemma loc_database_read_magic_eq:
  "loc_database_read_magic db =
     (if length (contents (db_file db)) - offset (db_file db) < sizeof_magic
        then Inl (Error (- ENOMSG))
      else if magic_matches (db_file db)
        then Inr (db\<lparr>db_file := (db_file db)\<lparr>offset := offset (db_file db) + sizeof_magic\<rparr>,
                    version := ucast (declared_version (db_file db))\<rparr>)
      else Inl (Error 1))"
proof -
  let ?f = "db_file db"
  let ?bytes = "take sizeof_magic (drop (offset ?f) (contents ?f))"
  have len: "length ?bytes < sizeof_magic \<longleftrightarrow> length (contents ?f) - offset ?f < sizeof_magic"
    by (simp add: min_def)
  have m: "take (length LOC_DATABASE_MAGIC) (m_magic (magic_of_bytes ?bytes))
      = take 7 (drop (offset ?f) (contents ?f))"
    by (simp add: length_LOC_DATABASE_MAGIC magic_of_bytes_def sizeof_magic_def)
  have v: "m_version (magic_of_bytes ?bytes) = take 2 (drop (offset ?f + 7) (contents ?f))"
    by (simp add: magic_of_bytes_def sizeof_magic_def drop_take add.commute)
  have o: "min sizeof_magic (length (contents ?f) - offset ?f) = sizeof_magic"
    if "\<not> length (contents ?f) - offset ?f < sizeof_magic"
    using that by simp
  show ?thesis
    unfolding loc_database_read_magic_def fread_eq Let_def prod.case len m v
    by (auto simp add: magic_matches_def declared_version_def o)
qed


lemma unat_ucast_32_64: "unat (ucast (w :: 32 word) :: 64 word) = unat w"
proof -
  have "unat w < 2 ^ 32"
    using unsigned_less [of w, where ?'a = nat] by simp
  then have "unat w < 2 ^ 64"
    by (rule less_le_trans) simp
  then show ?thesis
    by (simp add: unsigned_ucast_eq take_bit_nat_eq_self)
qed

lemma loc_database_read_as_section_v0_eq:
  "loc_database_read_as_section_v0 e db as_offset as_length =
     (case (if 0 < unat as_length then mmap_errno e (unat as_length) (unat as_offset) else None) of
        Some errno \<Rightarrow> Inl (Error (- errno))
      | None \<Rightarrow>
          Inr (db\<lparr>as_v0 := (if 0 < unat as_length
                              then Some (take (unat as_length) (drop (unat as_offset) (contents (db_file db))))
                              else as_v0 db),
                   as_count := as_length div 8\<rparr>))"
  by (auto simp add: loc_database_read_as_section_v0_def mmap_def sizeof_as_v0_def word_greater_zero_iff
      unat_gt_0 split: option.splits)

lemma loc_database_read_header_v0_eq:
  "loc_database_read_header_v0 e db =
     (let f = db_file db;
          header = header_v0_of_bytes e (take (sizeof_header_v0 e) (drop (offset f) (contents f)))
      in if length (contents f) - offset f < sizeof_header_v0 e then Inl (Error (- ENOMSG))
         else case loc_stringpool_read e loc_stringpool_new
                     (f\<lparr>offset := offset f + sizeof_header_v0 e\<rparr>)
                     (ucast (ntohl (h_pool_offset header))) (ucast (ntohl (h_pool_length header))) of
           Inl r \<Rightarrow> Inl r
         | Inr p \<Rightarrow>
             loc_database_read_as_section_v0 e
               (db\<lparr>db_file := f\<lparr>offset := offset f + sizeof_header_v0 e\<rparr>,
                   created_at := be64toh (h_created_at header),
                   vendor := ucast (ntohl (h_vendor header)),
                   description := ucast (ntohl (h_description header)),
                   pool := Some p\<rparr>)
               (ucast (ntohl (h_as_offset header))) (ucast (ntohl (h_as_length header))))"
proof -
  let ?f = "db_file db"
  have o: "min (sizeof_header_v0 e) (length (contents ?f) - offset ?f) = sizeof_header_v0 e"
    if "\<not> length (contents ?f) - offset ?f < sizeof_header_v0 e"
    using that by simp
  have len: "length (take (sizeof_header_v0 e) (drop (offset ?f) (contents ?f))) < sizeof_header_v0 e
      \<longleftrightarrow> length (contents ?f) - offset ?f < sizeof_header_v0 e"
    by (simp add: min_def)
  show ?thesis
    unfolding loc_database_read_header_v0_def fread_eq Let_def prod.case len
    by (auto simp add: o split: sum.splits)
qed

lemma ucast_16_32_eq_0: "(ucast (v :: 16 word) :: 32 word) = 0 \<longleftrightarrow> v = 0"
proof
  assume "(ucast v :: 32 word) = 0"
  then have "unat (ucast v :: 32 word) = 0" by simp
  moreover have "unat v < 2 ^ 32"
    using unsigned_less [of v, where ?'a = nat] by simp
  ultimately have "unat v = 0"
    by (simp add: unsigned_ucast_eq take_bit_nat_eq_self)
  then show "v = 0" by (simp add: unat_eq_0)
qed simp

lemma loc_database_new_eq:
  "loc_database_new e f =
     (if calloc_fails e then Inl (Error (- ENOMEM))
      else case fdopen_errno e of
        Some errno \<Rightarrow> Inl (Error (- errno))
      | None \<Rightarrow>
          if length (contents f) - offset f < sizeof_magic then Inl (Error (- ENOMSG))
          else if \<not> magic_matches f then Inl (Error 1)
          else if declared_version f \<noteq> 0 then Inl (Error 1)
          else loc_database_read_header_v0 e
                 \<lparr>refcount = 1, db_file = f\<lparr>offset := offset f + sizeof_magic\<rparr>, version = 0,
                  created_at = 0, vendor = 0, description = 0, as_v0 = None, as_count = 0,
                  pool = None\<rparr>)"
  by (simp add: loc_database_new_def loc_database_read_magic_eq loc_database_read_header_def
      ucast_16_32_eq_0 split: option.splits)

lemma loc_database_new_v0:
  assumes "\<not> calloc_fails e" and "fdopen_errno e = None"
    and "sizeof_magic \<le> length (contents f) - offset f" and "magic_matches f"
    and "declared_version f = 0"
    and "sizeof_header_v0 e \<le> length (contents f) - (offset f + sizeof_magic)"
  shows "loc_database_new e f =
     (case read_declared_pool e f of
        Inl r \<Rightarrow> Inl r
      | Inr p \<Rightarrow>
          (case (if 0 < declared_as_length e f
                 then mmap_errno e (declared_as_length e f) (declared_as_offset e f) else None) of
             Some errno \<Rightarrow> Inl (Error (- errno))
           | None \<Rightarrow>
               Inr \<lparr>refcount = 1,
                    db_file = f\<lparr>offset := offset f + sizeof_magic + sizeof_header_v0 e\<rparr>,
                    version = 0,
                    created_at = be64toh (h_created_at (declared_header e f)),
                    vendor = ucast (ntohl (h_vendor (declared_header e f))),
                    description = ucast (ntohl (h_description (declared_header e f))),
                    as_v0 = (if 0 < declared_as_length e f
                             then Some (take (declared_as_length e f)
                                         (drop (declared_as_offset e f) (contents f)))
                             else None),
                    as_count = ucast (ntohl (h_as_length (declared_header e f))) div 8,
                    pool = Some p\<rparr>))"
  using assms
  by (simp add: loc_database_new_eq loc_database_read_header_v0_eq
      loc_database_read_as_section_v0_eq Let_def declared_header_def read_declared_pool_def
      declared_as_length_def declared_as_offset_def unat_ucast_32_64
      split: option.splits sum.splits)

lemma unat_as_count:
  "unat ((ucast (l :: 32 word) :: 64 word) div 8) = unat l div 8"
  by (simp add: unat_div unat_ucast_32_64)

lemma unat_as_count_bound:
  "unat ((ucast (l :: 32 word) :: 64 word) div 8) < 2 ^ 29"
proof -
  have "unat l < 2 ^ 32"
    using unsigned_less [of l, where ?'a = nat] by simp
  then show ?thesis
    unfolding unat_as_count by simp
qed

lemma loc_database_read_header_v0_Inr:
  assumes "loc_database_read_header_v0 e db = Inr db'"
  shows "version db' = version db \<and> unat (as_count db') < 2 ^ 29 \<and> pool db' \<noteq> None"
proof -
  have "\<exists>l :: 32 word. version db' = version db \<and> as_count db' = ucast l div 8 \<and> pool db' \<noteq> None"
    using assms
    by (auto simp add: loc_database_read_header_v0_eq loc_database_read_as_section_v0_eq Let_def
        split: option.splits sum.splits if_splits)
  then show ?thesis
    using unat_as_count_bound by auto
qed

lemma loc_database_new_Inr:
  assumes "loc_database_new e f = Inr db"
  shows "version db = 0 \<and> unat (as_count db) < 2 ^ 29 \<and> pool db \<noteq> None
       \<and> declared_version f = 0
       \<and> magic_matches f \<and> sizeof_magic \<le> length (contents f) - offset f"
  using assms loc_database_read_header_v0_Inr [of e _ db]
  by (auto simp add: loc_database_new_eq split: option.splits if_splits)

subsection \<open>Magic and version\<close>

lemmas example_defs =
  example_env_def example_file_def example_image_def example_header_v0_of_bytes_def
  example_stringpool_read_def example_pool_def example_as_section_def

lemmas declared_defs =
  magic_matches_def declared_version_def declared_header_def declared_pool_offset_def
  declared_pool_length_def declared_as_offset_def declared_as_length_def read_declared_pool_def
  LOC_DATABASE_MAGIC_def sizeof_magic_def ntohs_def ntohl_def

lemma example_file_opens:
  "\<exists>db. loc_database_new example_env example_file = Inr db
      \<and> version db = 0 \<and> as_count db = 3
      \<and> pool db = Some example_pool \<and> as_v0 db = Some example_as_section"
  by (simp add: declared_defs example_defs loc_database_new_eq loc_database_read_header_v0_eq
      loc_database_read_as_section_v0_eq Let_def EINVAL_def)

lemma example_file_no_as_opens:
  "\<exists>db. loc_database_new example_env example_file_no_as = Inr db
      \<and> version db = 0 \<and> as_count db = 0
      \<and> pool db = Some example_pool \<and> as_v0 db = None"
  by (simp add: declared_defs example_defs example_file_no_as_def loc_database_new_eq loc_database_read_header_v0_eq
      loc_database_read_as_section_v0_eq Let_def EINVAL_def)

text \<open>
  Claim C3. A file that is shorter than the magic structure, or whose leading bytes are
  not the magic string, is not opened: \<open>loc_database_new\<close> hands no database object over
  and fails with the error of \<open>loc_database_read_magic\<close>, \<open>-ENOMSG\<close> for a short file and
  \<open>1\<close> for a mismatch (when \<open>calloc\<close> and the duplication of the stream have succeeded).
  In particular a zero-byte file fails with \<open>-ENOMSG\<close>.
\<close>

theorem loc_database_new_bad_magic:
  assumes "length (contents f) - offset f < sizeof_magic \<or> \<not> magic_matches f"
  shows "(\<forall>db. loc_database_new e f \<noteq> Inr db)
       \<and> (\<not> calloc_fails e \<and> fdopen_errno e = None \<longrightarrow>
            loc_database_new e f =
              Inl (Error (if length (contents f) - offset f < sizeof_magic then - ENOMSG else 1)))
       \<and> (\<not> calloc_fails e \<and> fdopen_errno e = None \<and> contents f = [] \<longrightarrow>
            loc_database_new e f = Inl (Error (- ENOMSG)))"
  using assms
  by (auto simp add: loc_database_new_eq sizeof_magic_def split: option.splits)

theorem loc_database_new_bad_magic_witness:
  "loc_database_new example_env \<lparr>contents = [], offset = 0\<rparr> = Inl (Error (- ENOMSG))
   \<and> loc_database_new example_env \<lparr>contents = [0, 0, 0, 0, 0, 0, 0, 0, 0, 0, 0, 0], offset = 0\<rparr>
       = Inl (Error 1)"
proof -
  let ?empty = "\<lparr>contents = [], offset = 0\<rparr>"
  let ?zeros = "\<lparr>contents = [0, 0, 0, 0, 0, 0, 0, 0, 0, 0, 0, 0 :: byte], offset = 0\<rparr>"
  have r: "\<not> calloc_fails example_env \<and> fdopen_errno example_env = None"
    by (simp add: example_env_def)
  have "length (contents ?empty) - offset ?empty < sizeof_magic"
    by (simp add: sizeof_magic_def)
  then have 1: "loc_database_new example_env ?empty = Inl (Error (- ENOMSG))"
    using loc_database_new_bad_magic [of ?empty example_env] r by simp
  have z: "\<not> length (contents ?zeros) - offset ?zeros < sizeof_magic" "\<not> magic_matches ?zeros"
    by (simp_all add: declared_defs)
  then have 2: "loc_database_new example_env ?zeros = Inl (Error 1)"
    using loc_database_new_bad_magic [of ?zeros example_env] r by simp
  from 1 2 show ?thesis by simp
qed

text \<open>
  Claim C2 says that opening succeeds only for version 1 and that version 0 is rejected.
  The file \<open>example_file\<close> has matching magic bytes and version 0, and it is opened.
\<close>

theorem loc_database_new_version_counterexample:
  "magic_matches example_file \<and> declared_version example_file = 0
   \<and> \<not> isl (loc_database_new example_env example_file)"
  by (simp add: declared_defs example_defs loc_database_new_eq loc_database_read_header_v0_eq
      loc_database_read_as_section_v0_eq Let_def EINVAL_def)

text \<open>
  Claim C2, as amended. For every file whose magic bytes match, opening succeeds only
  when the parsed version number is 0; every other version number, 1 included, is
  rejected with the return value \<open>1\<close>.
\<close>

theorem loc_database_new_version:
  assumes "sizeof_magic \<le> length (contents f) - offset f" and "magic_matches f"
  shows "(\<forall>db. loc_database_new e f = Inr db \<longrightarrow> declared_version f = 0 \<and> version db = 0)
       \<and> (declared_version f \<noteq> 0 \<and> \<not> calloc_fails e \<and> fdopen_errno e = None \<longrightarrow>
            loc_database_new e f = Inl (Error 1))"
proof (intro conjI allI impI)
  fix db
  assume "loc_database_new e f = Inr db"
  then show "declared_version f = 0" and "version db = 0"
    using loc_database_new_Inr by blast+
next
  assume "declared_version f \<noteq> 0 \<and> \<not> calloc_fails e \<and> fdopen_errno e = None"
  then show "loc_database_new e f = Inl (Error 1)"
    using assms by (simp add: loc_database_new_eq)
qed

theorem loc_database_new_version_witness:
  "magic_matches example_file_v1 \<and> declared_version example_file_v1 = 1
   \<and> loc_database_new example_env example_file_v1 = Inl (Error 1)"
proof -
  have "sizeof_magic \<le> length (contents example_file_v1) - offset example_file_v1"
    and "magic_matches example_file_v1" and "declared_version example_file_v1 = 1"
    by (simp_all add: declared_defs example_defs example_file_v1_def)
  moreover have "\<not> calloc_fails example_env \<and> fdopen_errno example_env = None"
    by (simp add: example_env_def)
  ultimately show ?thesis
    using loc_database_new_version [of example_file_v1 example_env] by simp
qed

subsection \<open>Sections\<close>

text \<open>
  Claim C4 says that a section declared outside the file or overlapping another section
  makes opening fail. \<open>example_file_as_outside\<close> is 4112 bytes long; its pool lies within
  the file and its AS section is declared at offset 8192 with 28 bytes.
  \<open>example_file_overlap\<close> declares both sections at offset 4096, 16 bytes long, within the
  file. Both are opened, with a pool reader that checks the range of the pool.
\<close>

theorem loc_database_new_no_validation_counterexample:
  "magic_matches example_file_as_outside \<and> declared_version example_file_as_outside = 0
   \<and> length (contents example_file_as_outside) = 4112
   \<and> declared_pool_offset example_env example_file_as_outside = 4096
   \<and> declared_pool_length example_env example_file_as_outside = 16
   \<and> declared_as_offset example_env example_file_as_outside = 8192
   \<and> declared_as_length example_env example_file_as_outside = 28
   \<and> \<not> isl (loc_database_new example_env example_file_as_outside)
   \<and> magic_matches example_file_overlap \<and> declared_version example_file_overlap = 0
   \<and> length (contents example_file_overlap) = 8220
   \<and> declared_pool_offset example_env example_file_overlap = 4096
   \<and> declared_pool_length example_env example_file_overlap = 16
   \<and> declared_as_offset example_env example_file_overlap = 4096
   \<and> declared_as_length example_env example_file_overlap = 16
   \<and> \<not> isl (loc_database_new example_env example_file_overlap)"
  by (simp add: declared_defs example_defs example_file_as_outside_def example_file_overlap_def
      loc_database_new_eq loc_database_read_header_v0_eq loc_database_read_as_section_v0_eq
      Let_def EINVAL_def)

text \<open>
  Claim C4, as amended. For a file with valid magic, version 0 and a complete header,
  the open procedure hands the declared offset and length of the pool to the pool reader
  and returns the reader's error unchanged. Once the pool is read, it compares the
  declared offset and length of the AS section neither with the size of the file nor
  with the section of the pool: it fails only when \<open>mmap\<close> of an AS section of non-zero
  length fails, with the negated \<open>errno\<close>, and otherwise succeeds, with the bytes of the
  file at the declared place as the AS section, also when that place lies outside the
  file or overlaps the pool.
\<close>

theorem loc_database_new_no_validation:
  assumes "\<not> calloc_fails e" and "fdopen_errno e = None"
    and "sizeof_magic \<le> length (contents f) - offset f" and "magic_matches f"
    and "declared_version f = 0"
    and "sizeof_header_v0 e \<le> length (contents f) - (offset f + sizeof_magic)"
  shows "case read_declared_pool e f of
           Inl r \<Rightarrow> loc_database_new e f = Inl r
         | Inr p \<Rightarrow>
            (case (if 0 < declared_as_length e f
                   then mmap_errno e (declared_as_length e f) (declared_as_offset e f) else None) of
               Some errno \<Rightarrow> loc_database_new e f = Inl (Error (- errno))
             | None \<Rightarrow>
                 (\<exists>db. loc_database_new e f = Inr db
                    \<and> pool db = Some p
                    \<and> as_v0 db = (if 0 < declared_as_length e f
                                  then Some (take (declared_as_length e f)
                                              (drop (declared_as_offset e f) (contents f)))
                                  else None)
                    \<and> unat (as_count db) = declared_as_length e f div sizeof_as_v0))"
  unfolding loc_database_new_v0 [OF assms]
  by (simp add: unat_as_count declared_as_length_def sizeof_as_v0_def
      split: option.splits sum.splits)

theorem loc_database_new_no_validation_witness:
  "(\<exists>db. loc_database_new example_env example_file_as_outside = Inr db
      \<and> pool db = Some example_pool \<and> as_v0 db = Some [] \<and> unat (as_count db) = 3)
   \<and> (\<exists>db. loc_database_new example_env example_file_overlap = Inr db
      \<and> pool db = Some example_pool \<and> as_v0 db = Some example_pool \<and> unat (as_count db) = 2)"
proof -
  have "\<not> calloc_fails example_env" and "fdopen_errno example_env = None"
    and "sizeof_magic \<le> length (contents example_file_as_outside) - offset example_file_as_outside"
    and "magic_matches example_file_as_outside"
    and "declared_version example_file_as_outside = 0"
    and "sizeof_header_v0 example_env
           \<le> length (contents example_file_as_outside)
               - (offset example_file_as_outside + sizeof_magic)"
    by (simp_all add: declared_defs example_defs example_file_as_outside_def)
  from loc_database_new_no_validation [OF this]
  have 1: "\<exists>db. loc_database_new example_env example_file_as_outside = Inr db
      \<and> pool db = Some example_pool \<and> as_v0 db = Some [] \<and> unat (as_count db) = 3"
    by (simp add: declared_defs example_defs example_file_as_outside_def sizeof_as_v0_def)
  have "\<not> calloc_fails example_env" and "fdopen_errno example_env = None"
    and "sizeof_magic \<le> length (contents example_file_overlap) - offset example_file_overlap"
    and "magic_matches example_file_overlap"
    and "declared_version example_file_overlap = 0"
    and "sizeof_header_v0 example_env
           \<le> length (contents example_file_overlap)
               - (offset example_file_overlap + sizeof_magic)"
    by (simp_all add: declared_defs example_defs example_file_overlap_def)
  from loc_database_new_no_validation [OF this]
  have 2: "\<exists>db. loc_database_new example_env example_file_overlap = Inr db
      \<and> pool db = Some example_pool \<and> as_v0 db = Some example_pool \<and> unat (as_count db) = 2"
    by (simp add: declared_defs example_defs example_file_overlap_def sizeof_as_v0_def)
  from 1 2 show ?thesis by simp
qed

text \<open>
  Claim C10. For every declared length \<open>L\<close> of the AS section, the number of AS records
  is \<open>L\<close> divided by the record size, rounded down; reading the section succeeds
  whenever \<open>L = 0\<close> or \<open>mmap\<close> succeeds, whether or not \<open>L\<close> is a multiple of the record
  size, and so does opening the file.
\<close>

theorem as_count_floor:
  "(\<forall>db'. loc_database_read_as_section_v0 e db as_offset as_length = Inr db' \<longrightarrow>
       unat (loc_database_count_as db') = unat as_length div sizeof_as_v0)
   \<and> (as_length = 0 \<or> mmap_errno e (unat as_length) (unat as_offset) = None \<longrightarrow>
       (\<exists>db'. loc_database_read_as_section_v0 e db as_offset as_length = Inr db'))
   \<and> (\<not> calloc_fails e \<and> fdopen_errno e = None
        \<and> sizeof_magic \<le> length (contents f) - offset f \<and> magic_matches f
        \<and> declared_version f = 0
        \<and> sizeof_header_v0 e \<le> length (contents f) - (offset f + sizeof_magic)
        \<and> \<not> isl (read_declared_pool e f)
        \<and> (declared_as_length e f = 0
             \<or> mmap_errno e (declared_as_length e f) (declared_as_offset e f) = None) \<longrightarrow>
       (\<exists>db. loc_database_new e f = Inr db
          \<and> unat (loc_database_count_as db) = declared_as_length e f div sizeof_as_v0))"
proof (intro conjI allI impI)
  fix db'
  assume "loc_database_read_as_section_v0 e db as_offset as_length = Inr db'"
  then show "unat (loc_database_count_as db') = unat as_length div sizeof_as_v0"
    by (auto simp add: loc_database_read_as_section_v0_eq loc_database_count_as_def
        sizeof_as_v0_def unat_div split: option.splits if_splits)
next
  assume "as_length = 0 \<or> mmap_errno e (unat as_length) (unat as_offset) = None"
  then show "\<exists>db'. loc_database_read_as_section_v0 e db as_offset as_length = Inr db'"
    by (auto simp add: loc_database_read_as_section_v0_eq)
next
  assume a: "\<not> calloc_fails e \<and> fdopen_errno e = None
        \<and> sizeof_magic \<le> length (contents f) - offset f \<and> magic_matches f
        \<and> declared_version f = 0
        \<and> sizeof_header_v0 e \<le> length (contents f) - (offset f + sizeof_magic)
        \<and> \<not> isl (read_declared_pool e f)
        \<and> (declared_as_length e f = 0
             \<or> mmap_errno e (declared_as_length e f) (declared_as_offset e f) = None)"
  then have "loc_database_new e f =
     (case read_declared_pool e f of
        Inl r \<Rightarrow> Inl r
      | Inr p \<Rightarrow>
          (case (if 0 < declared_as_length e f
                 then mmap_errno e (declared_as_length e f) (declared_as_offset e f) else None) of
             Some errno \<Rightarrow> Inl (Error (- errno))
           | None \<Rightarrow>
               Inr \<lparr>refcount = 1,
                    db_file = f\<lparr>offset := offset f + sizeof_magic + sizeof_header_v0 e\<rparr>,
                    version = 0,
                    created_at = be64toh (h_created_at (declared_header e f)),
                    vendor = ucast (ntohl (h_vendor (declared_header e f))),
                    description = ucast (ntohl (h_description (declared_header e f))),
                    as_v0 = (if 0 < declared_as_length e f
                             then Some (take (declared_as_length e f)
                                         (drop (declared_as_offset e f) (contents f)))
                             else None),
                    as_count = ucast (ntohl (h_as_length (declared_header e f))) div 8,
                    pool = Some p\<rparr>))"
    by (intro loc_database_new_v0) simp_all
  with a show "\<exists>db. loc_database_new e f = Inr db
          \<and> unat (loc_database_count_as db) = declared_as_length e f div sizeof_as_v0"
    by (auto simp add: unat_as_count declared_as_length_def sizeof_as_v0_def
        loc_database_count_as_def split: sum.splits)
qed

theorem as_count_floor_witness:
  "declared_as_length example_env example_file = 28
   \<and> (\<exists>db. loc_database_new example_env example_file = Inr db
          \<and> unat (loc_database_count_as db) = 3)"
proof -
  have "\<not> calloc_fails example_env \<and> fdopen_errno example_env = None
        \<and> sizeof_magic \<le> length (contents example_file) - offset example_file
        \<and> magic_matches example_file
        \<and> declared_version example_file = 0
        \<and> sizeof_header_v0 example_env
             \<le> length (contents example_file) - (offset example_file + sizeof_magic)
        \<and> \<not> isl (read_declared_pool example_env example_file)
        \<and> (declared_as_length example_env example_file = 0
             \<or> mmap_errno example_env (declared_as_length example_env example_file)
                  (declared_as_offset example_env example_file) = None)"
    and l: "declared_as_length example_env example_file = 28"
    by (simp_all add: declared_defs example_defs)
  then show ?thesis
    using as_count_floor [where e = example_env and f = example_file]
    by (simp add: sizeof_as_v0_def)
qed

section \<open>Properties of the AS lookup\<close>

subsection \<open>Arithmetic of the search interval\<close>

lemma sint_word_of_int_64:
  assumes "- (2 ^ 63) \<le> x" and "x < 2 ^ 63"
  shows "sint (word_of_int x :: 64 word) = x"
  using assms by (simp add: sint_sbintrunc' signed_take_bit_int_eq_self)

lemma unat_word_of_nat_64:
  assumes "m < 2 ^ 64"
  shows "unat (word_of_nat m :: 64 word) = m"
  using assms by (simp add: unat_of_nat)

lemma sint_lo:
  assumes "l \<le> 2 ^ 62"
  shows "sint (word_of_nat l :: 64 word) = int l"
proof -
  have "int l < 2 ^ 63" using assms by simp
  then have "sint (word_of_int (int l) :: 64 word) = int l"
    by (intro sint_word_of_int_64) simp_all
  then show ?thesis by simp
qed

lemma sint_hi:
  assumes "u \<le> 2 ^ 63"
  shows "sint (word_of_nat u - 1 :: 64 word) = int u - 1"
proof -
  have "int u \<le> 2 ^ 63" using assms by simp
  then have "sint (word_of_int (int u - 1) :: 64 word) = int u - 1"
    by (intro sint_word_of_int_64) simp_all
  then show ?thesis by simp
qed

lemma loop_test:
  assumes "l \<le> 2 ^ 62" and "u \<le> 2 ^ 63"
  shows "(word_of_nat l :: 64 word) \<le>s word_of_nat u - 1 \<longleftrightarrow> l < u"
  by (auto simp add: word_sle_eq sint_lo [OF assms(1)] sint_hi [OF assms(2)])

lemma loop_mid:
  assumes "l < u" and "l + u \<le> 2 ^ 63"
  shows "(word_of_int (sint (word_of_nat l + (word_of_nat u - 1) :: 64 word) sdiv 2) :: 64 word)
           = word_of_nat ((l + u - 1) div 2)"
proof -
  have s: "(word_of_nat l + (word_of_nat u - 1) :: 64 word) = word_of_int (int (l + u - 1))"
    using assms(1) by (simp add: of_nat_diff)
  have "int (l + u - 1) < 2 ^ 63"
    using assms by simp
  then have "sint (word_of_int (int (l + u - 1)) :: 64 word) = int (l + u - 1)"
    by (intro sint_word_of_int_64) simp_all
  moreover have "int (l + u - 1) sdiv 2 = int ((l + u - 1) div 2)"
    by (simp add: signed_divide_int_def sgn_if zdiv_int)
  ultimately show ?thesis
    unfolding s by simp
qed

lemma loop_mid_overflow:
  assumes "l < u" and "2 ^ 63 < l + u" and "l \<le> 2 ^ 62" and "u \<le> 2 ^ 63"
  shows "2 ^ 63 \<le> unat (word_of_int (sint (word_of_nat l + (word_of_nat u - 1) :: 64 word) sdiv 2) :: 64 word)"
proof -
  define s where "s = int (l + u - 1) - 2 ^ 64"
  have s: "(word_of_nat l + (word_of_nat u - 1) :: 64 word) = word_of_int s"
    using assms(1) by (simp add: of_nat_diff s_def word_of_int_2p_len [where 'a = 64, simplified])
  have r: "- (2 ^ 63) \<le> s" "s < - (2 ^ 62)"
    using assms unfolding s_def by simp_all
  then have "sint (word_of_int s :: 64 word) = s"
    by (intro sint_word_of_int_64) simp_all
  moreover define d where "d = s sdiv 2"
  moreover have d: "- (2 ^ 62) \<le> d" "d < 0"
    using r unfolding d_def by (simp_all add: signed_divide_int_def sgn_if)
  ultimately have i: "(word_of_int (sint (word_of_nat l + (word_of_nat u - 1) :: 64 word) sdiv 2) :: 64 word)
      = word_of_int d"
    unfolding s by simp
  have "(word_of_int d :: 64 word) = word_of_int (d + 2 ^ 64)"
    by (simp add: word_of_int_2p_len [where 'a = 64, simplified])
  also have "\<dots> = word_of_nat (nat (d + 2 ^ 64))"
    using d by simp
  finally have e: "(word_of_int d :: 64 word) = word_of_nat (nat (d + 2 ^ 64))" .
  have "nat (d + 2 ^ 64) < 2 ^ 64"
    using d by simp
  then have "unat (word_of_nat (nat (d + 2 ^ 64)) :: 64 word) = nat (d + 2 ^ 64)"
    by (rule unat_word_of_nat_64)
  then have "unat (word_of_int d :: 64 word) = nat (d + 2 ^ 64)"
    by (simp only: e)
  then show ?thesis
    unfolding i using d by simp
qed

subsection \<open>Termination and the empty table\<close>

lemma sint_negative:
  fixes h :: "64 word"
  assumes "2 ^ 63 \<le> unat h"
  shows "sint h < 0"
proof -
  define n where "n = unat h"
  define x where "x = int n - 2 ^ 64"
  have "n < 2 ^ 64"
    unfolding n_def using unsigned_less [of h, where ?'a = nat] by simp
  moreover have "2 ^ 63 \<le> n"
    using assms by (simp add: n_def)
  ultimately have x: "- (2 ^ 63) \<le> x" "x < 0"
    unfolding x_def by simp_all
  have "h = word_of_nat n"
    by (simp add: n_def)
  also have "\<dots> = word_of_int x"
    unfolding x_def by (simp add: word_of_int_2p_len [where 'a = 64, simplified])
  finally have "h = word_of_int x" .
  moreover have "sint (word_of_int x :: 64 word) = x"
    using x by (intro sint_word_of_int_64) simp_all
  ultimately show ?thesis
    using x by simp
qed

lemma loc_database_fetch_as_EINVAL:
  "as_count db \<le> pos \<Longrightarrow> loc_database_fetch_as db pos = Inl (Error (- EINVAL))"
  by (simp add: loc_database_fetch_as_def)

lemma loop_exit:
  "\<not> lo \<le>s hi \<Longrightarrow> loc_database_get_as_loop fuel db number lo hi = Some (Inr None)"
  by (cases fuel) simp_all

lemma loop_terminates:
  assumes "l \<le> u" and "u \<le> unat (as_count db)" and "unat (as_count db) \<le> 2 ^ 63"
    and "l \<le> 2 ^ 62" and "u - l < 2 ^ fuel"
  shows "loc_database_get_as_loop fuel db number (word_of_nat l) (word_of_nat u - 1) \<noteq> None"
  using assms
proof (induction fuel arbitrary: l u)
  case 0
  then have "l = u" by simp
  moreover have "u \<le> 2 ^ 63" using 0 by linarith
  ultimately have "\<not> (word_of_nat l :: 64 word) \<le>s word_of_nat u - 1"
    using "0.prems"(4) by (simp add: loop_test)
  then show ?case by (simp add: loop_exit)
next
  case (Suc k)
  have u63: "u \<le> 2 ^ 63" using Suc.prems by linarith
  note test = loop_test [OF Suc.prems(4) u63]
  show ?case
  proof (cases "l < u")
    case False
    then have "\<not> (word_of_nat l :: 64 word) \<le>s word_of_nat u - 1"
      by (simp add: test)
    then show ?thesis by (simp add: loop_exit)
  next
    case True
    let ?i = "word_of_int (sint (word_of_nat l + (word_of_nat u - 1) :: 64 word) sdiv 2) :: 64 word"
    show ?thesis
    proof (cases "l + u \<le> 2 ^ 63")
      case False
      then have "2 ^ 63 \<le> unat ?i"
        using True Suc.prems(4) u63 by (intro loop_mid_overflow) simp_all
      then have "as_count db \<le> ?i"
        using Suc.prems(3) by (simp add: word_le_nat_alt)
      then have "loc_database_fetch_as db ?i = Inl (Error (- EINVAL))"
        by (rule loc_database_fetch_as_EINVAL)
      then show ?thesis
        using True by (simp add: test Let_def)
    next
      case le: True
      define m where "m = (l + u - 1) div 2"
      have i: "?i = word_of_nat m"
        unfolding m_def using True le by (rule loop_mid)
      have m: "l \<le> m" "m < u" "m + 1 \<le> 2 ^ 62"
        using True le unfolding m_def by simp_all
      have "u - l < 2 * 2 ^ k"
        using Suc.prems(5) by simp
      then have sz: "u - (m + 1) < 2 ^ k" "m - l < 2 ^ k"
        using True unfolding m_def by linarith+
      have e: "(word_of_nat m + 1 :: 64 word) = word_of_nat (m + 1)"
        by simp
      have 1: "loc_database_get_as_loop k db number (word_of_nat m + 1) (word_of_nat u - 1) \<noteq> None"
        unfolding e using m sz Suc.prems(2,3) by (intro Suc.IH) simp_all
      have 2: "loc_database_get_as_loop k db number (word_of_nat l) (word_of_nat m - 1) \<noteq> None"
        using m sz Suc.prems(2,3,4) by (intro Suc.IH) simp_all
      show ?thesis
        using True 1 2 by (simp add: test i Let_def split: sum.splits)
    qed
  qed
qed

lemma loc_database_get_as_Some:
  assumes "unat (as_count db) < 2 ^ fuel"
  shows "\<exists>r. loc_database_get_as fuel db number = Some r"
proof (cases "unat (as_count db) \<le> 2 ^ 63")
  case True
  have "as_count db - 1 = word_of_nat (unat (as_count db)) - 1"
    by simp
  moreover have "loc_database_get_as_loop fuel db number (word_of_nat 0)
      (word_of_nat (unat (as_count db)) - 1) \<noteq> None"
    using True assms by (intro loop_terminates) simp_all
  ultimately show ?thesis
    by (simp add: loc_database_get_as_def)
next
  case False
  define h where "h = as_count db - 1"
  have "as_count db \<noteq> 0"
    using False by auto
  then have "unat h = unat (as_count db) - 1"
    unfolding h_def by (simp add: unat_minus_one)
  then have "2 ^ 63 \<le> unat h"
    using False by simp
  then have "sint h < 0"
    by (rule sint_negative)
  then have "\<not> 0 \<le>s h"
    by (simp add: word_sle_eq)
  then show ?thesis
    by (simp add: loc_database_get_as_def loop_exit h_def)
qed

lemma loop_step_nat:
  assumes "l < u" and "u \<le> unat (as_count db)" and "unat (as_count db) \<le> 2 ^ 63"
    and "l \<le> 2 ^ 62"
  shows "(\<exists>r. \<forall>n. loc_database_get_as_loop (Suc n) db number (word_of_nat l) (word_of_nat u - 1) = Some r)
       \<or> (\<exists>l' u'. l \<le> l' \<and> l' \<le> u' \<and> u' \<le> u \<and> 2 * (u' - l') \<le> u - l \<and> l' \<le> 2 ^ 62
             \<and> (\<forall>n. loc_database_get_as_loop (Suc n) db number (word_of_nat l) (word_of_nat u - 1)
                      = loc_database_get_as_loop n db number (word_of_nat l') (word_of_nat u' - 1)))"
proof -
  have u63: "u \<le> 2 ^ 63" using assms by linarith
  note test = loop_test [OF assms(4) u63]
  let ?i = "word_of_int (sint (word_of_nat l + (word_of_nat u - 1) :: 64 word) sdiv 2) :: 64 word"
  show ?thesis
  proof (cases "l + u \<le> 2 ^ 63")
    case False
    then have "2 ^ 63 \<le> unat ?i"
      using assms(1,4) u63 by (intro loop_mid_overflow) simp_all
    then have "as_count db \<le> ?i"
      using assms(3) by (simp add: word_le_nat_alt)
    then have "loc_database_fetch_as db ?i = Inl (Error (- EINVAL))"
      by (rule loc_database_fetch_as_EINVAL)
    then have "\<forall>n. loc_database_get_as_loop (Suc n) db number (word_of_nat l) (word_of_nat u - 1)
        = Some (Inl (Error (- EINVAL)))"
      using assms(1) by (simp add: test Let_def)
    then show ?thesis by blast
  next
    case le: True
    define m where "m = (l + u - 1) div 2"
    have i: "?i = word_of_nat m"
      unfolding m_def using assms(1) le by (rule loop_mid)
    have m: "l \<le> m" "m < u" "m + 1 \<le> 2 ^ 62" "2 * (u - (m + 1)) \<le> u - l" "2 * (m - l) \<le> u - l"
      using assms(1) le unfolding m_def by simp_all
    have e: "(word_of_nat m + 1 :: 64 word) = word_of_nat (m + 1)"
      by simp
    show ?thesis
    proof (cases "loc_database_fetch_as db (word_of_nat m)")
      case (Inl r)
      then have "\<forall>n. loc_database_get_as_loop (Suc n) db number (word_of_nat l) (word_of_nat u - 1)
          = Some (Inl r)"
        using assms(1) by (simp add: test i Let_def)
      then show ?thesis by blast
    next
      case (Inr a)
      consider (eq) "loc_as_get_number a = number"
        | (lt) "loc_as_get_number a \<noteq> number" "loc_as_get_number a < number"
        | (gt) "loc_as_get_number a \<noteq> number" "\<not> loc_as_get_number a < number"
        by blast
      then show ?thesis
      proof cases
        case eq
        then have "\<forall>n. loc_database_get_as_loop (Suc n) db number (word_of_nat l) (word_of_nat u - 1)
            = Some (Inr (Some a))"
          using assms(1) Inr by (simp add: test i Let_def)
        then show ?thesis by blast
      next
        case lt
        then have "\<forall>n. loc_database_get_as_loop (Suc n) db number (word_of_nat l) (word_of_nat u - 1)
            = loc_database_get_as_loop n db number (word_of_nat (m + 1)) (word_of_nat u - 1)"
          using assms(1) Inr unfolding e [symmetric] by (simp add: test i Let_def)
        moreover have "l \<le> m + 1" "m + 1 \<le> u" "u \<le> u"
          using m by simp_all
        ultimately show ?thesis
          using m(3,4) by blast
      next
        case gt
        then have "\<forall>n. loc_database_get_as_loop (Suc n) db number (word_of_nat l) (word_of_nat u - 1)
            = loc_database_get_as_loop n db number (word_of_nat l) (word_of_nat m - 1)"
          using assms(1) Inr by (simp add: test i Let_def)
        moreover have "l \<le> l" "m \<le> u"
          using m by simp_all
        ultimately show ?thesis
          using m(1,5) assms(4) by blast
      qed
    qed
  qed
qed

lemma loop_step:
  assumes "search_interval db lo hi" and "lo \<le>s hi"
  shows "(\<exists>r. \<forall>n. loc_database_get_as_loop (Suc n) db number lo hi = Some r)
       \<or> (\<exists>lo' hi'. (\<forall>n. loc_database_get_as_loop (Suc n) db number lo hi
                             = loc_database_get_as_loop n db number lo' hi')
             \<and> search_interval db lo' hi'
             \<and> sint lo \<le> sint lo' \<and> sint hi' \<le> sint hi
             \<and> 2 * (sint hi' - sint lo' + 1) \<le> sint hi - sint lo + 1)"
proof -
  define l u where "l = nat (sint lo)" and "u = nat (sint hi + 1)"
  define N where "N = unat (as_count db)"
  have uN: "uint (as_count db) = int N"
    by (simp add: N_def)
  have inv: "0 \<le> sint lo" "sint lo \<le> 2 ^ 62" "sint lo \<le> sint hi"
      "sint hi < int N" "N \<le> 2 ^ 63"
    using assms by (simp_all add: search_interval_def word_sle_eq uN) (simp add: N_def)
  have lo: "lo = word_of_nat l"
    unfolding l_def using inv(1) by simp
  have "(word_of_nat u :: 64 word) = word_of_int (sint hi + 1)"
    unfolding u_def using inv(1,3) by simp
  then have hi: "hi = word_of_nat u - 1"
    by simp
  have b: "l < u" "u \<le> N" "l \<le> 2 ^ 62"
    using inv unfolding l_def u_def by simp_all
  have sl: "sint lo = int l" and sh: "sint hi = int u - 1"
    using inv unfolding l_def u_def by simp_all
  from loop_step_nat [OF b(1) b(2) [unfolded N_def] inv(5) [unfolded N_def] b(3), of number]
  show ?thesis
  proof (elim disjE exE conjE)
    fix r
    assume "\<forall>n. loc_database_get_as_loop (Suc n) db number (word_of_nat l) (word_of_nat u - 1) = Some r"
    then show ?thesis
      unfolding lo hi by blast
  next
    fix l' u'
    assume a: "l \<le> l'" "l' \<le> u'" "u' \<le> u" "2 * (u' - l') \<le> u - l" "l' \<le> 2 ^ 62"
      and s: "\<forall>n. loc_database_get_as_loop (Suc n) db number (word_of_nat l) (word_of_nat u - 1)
                      = loc_database_get_as_loop n db number (word_of_nat l') (word_of_nat u' - 1)"
    have u': "u' \<le> 2 ^ 63"
      using a(3) b(2) inv(5) by linarith
    have sl': "sint (word_of_nat l' :: 64 word) = int l'"
      using a(5) by (rule sint_lo)
    have sh': "sint (word_of_nat u' - 1 :: 64 word) = int u' - 1"
      using u' by (rule sint_hi)
    have "search_interval db (word_of_nat l') (word_of_nat u' - 1)"
      unfolding search_interval_def sl' sh' uN using a b inv(5) by (simp add: N_def [symmetric])
    moreover have "sint lo \<le> sint (word_of_nat l' :: 64 word)"
      and "sint (word_of_nat u' - 1 :: 64 word) \<le> sint hi"
      and "2 * (sint (word_of_nat u' - 1 :: 64 word) - sint (word_of_nat l' :: 64 word) + 1)
            \<le> sint hi - sint lo + 1"
      unfolding sl' sh' sl sh using a b(1) by simp_all
    ultimately show ?thesis
      using s unfolding lo hi by blast
  qed
qed

lemma search_interval_initial:
  "search_interval db 0 (as_count db - 1) \<or> \<not> 0 \<le>s as_count db - 1"
proof (cases "unat (as_count db) \<le> 2 ^ 63")
  case True
  have "as_count db - 1 = word_of_nat (unat (as_count db)) - 1"
    by simp
  moreover have "sint (word_of_nat (unat (as_count db)) - 1 :: 64 word) = int (unat (as_count db)) - 1"
    using True by (rule sint_hi)
  ultimately have "sint (as_count db - 1) = int (unat (as_count db)) - 1"
    by (simp only:)
  then show ?thesis
    using True unfolding search_interval_def by simp
next
  case False
  define h where "h = as_count db - 1"
  have "as_count db \<noteq> 0"
    using False by auto
  then have "unat h = unat (as_count db) - 1"
    unfolding h_def by (simp add: unat_minus_one)
  then have "2 ^ 63 \<le> unat h"
    using False by simp
  then have "sint h < 0"
    by (rule sint_negative)
  then show ?thesis
    by (simp add: word_sle_eq h_def)
qed

lemma floorlog_fuel: "n < 2 ^ floorlog 2 n"
proof (cases "n = 0")
  case True
  then show ?thesis by (simp add: floorlog_def)
next
  case False
  then show ?thesis
    using floorlog_bounds [of n 2] by simp
qed

text \<open>
  Claim C8. For every database and every queried number the loop of
  \<open>loc_database_get_as\<close> finishes: \<open>n\<close> iterations are enough whenever
  \<open>as_count < 2 ^ n\<close>, hence as many iterations as \<open>as_count\<close> has binary digits,
  \<open>floorlog 2 as_count\<close>. The loop either exits at once or starts in a state of
  \<open>search_interval\<close>, and an iteration from such a state either returns or goes on in
  such a state, with an interval from \<open>lo\<close> to \<open>hi\<close> of at most half the size.
\<close>

theorem loc_database_get_as_terminates:
  "(unat (as_count db) < 2 ^ fuel \<longrightarrow> (\<exists>r. loc_database_get_as fuel db number = Some r))
   \<and> (\<exists>r. loc_database_get_as (floorlog 2 (unat (as_count db))) db number = Some r)
   \<and> (search_interval db 0 (as_count db - 1) \<or> \<not> 0 \<le>s as_count db - 1)
   \<and> (search_interval db lo hi \<and> lo \<le>s hi \<longrightarrow>
        (\<exists>r. \<forall>n. loc_database_get_as_loop (Suc n) db number lo hi = Some r)
        \<or> (\<exists>lo' hi'. (\<forall>n. loc_database_get_as_loop (Suc n) db number lo hi
                              = loc_database_get_as_loop n db number lo' hi')
              \<and> search_interval db lo' hi'
              \<and> sint lo \<le> sint lo' \<and> sint hi' \<le> sint hi
              \<and> 2 * (sint hi' - sint lo' + 1) \<le> sint hi - sint lo + 1))"
proof (intro conjI impI)
  assume "unat (as_count db) < 2 ^ fuel"
  then show "\<exists>r. loc_database_get_as fuel db number = Some r"
    by (rule loc_database_get_as_Some)
next
  show "\<exists>r. loc_database_get_as (floorlog 2 (unat (as_count db))) db number = Some r"
    using floorlog_fuel by (rule loc_database_get_as_Some)
next
  show "search_interval db 0 (as_count db - 1) \<or> \<not> 0 \<le>s as_count db - 1"
    by (rule search_interval_initial)
next
  assume "search_interval db lo hi \<and> lo \<le>s hi"
  then show "(\<exists>r. \<forall>n. loc_database_get_as_loop (Suc n) db number lo hi = Some r)
        \<or> (\<exists>lo' hi'. (\<forall>n. loc_database_get_as_loop (Suc n) db number lo hi
                              = loc_database_get_as_loop n db number lo' hi')
              \<and> search_interval db lo' hi'
              \<and> sint lo \<le> sint lo' \<and> sint hi' \<le> sint hi
              \<and> 2 * (sint hi' - sint lo' + 1) \<le> sint hi - sint lo + 1)"
    using loop_step by blast
qed

theorem loc_database_get_as_terminates_witness:
  "\<exists>db. loc_database_new example_env example_file = Inr db
     \<and> unat (as_count db) < 2 ^ 2
     \<and> (\<exists>r. loc_database_get_as 2 db 65002 = Some r)
     \<and> search_interval db 0 2 \<and> 0 \<le>s (2 :: off_t)
     \<and> ((\<exists>r. \<forall>n. loc_database_get_as_loop (Suc n) db 65002 0 2 = Some r)
        \<or> (\<exists>lo' hi'. (\<forall>n. loc_database_get_as_loop (Suc n) db 65002 0 2
                              = loc_database_get_as_loop n db 65002 lo' hi')
              \<and> search_interval db lo' hi'
              \<and> sint (0 :: off_t) \<le> sint lo' \<and> sint hi' \<le> sint (2 :: off_t)
              \<and> 2 * (sint hi' - sint lo' + 1) \<le> sint (2 :: off_t) - sint (0 :: off_t) + 1))"
proof -
  obtain db where db: "loc_database_new example_env example_file = Inr db" "as_count db = 3"
    using example_file_opens by blast
  have b: "unat (as_count db) < 2 ^ 2"
    using db(2) by simp
  have si: "search_interval db 0 2 \<and> 0 \<le>s (2 :: off_t)"
    using db(2) by (simp add: search_interval_def word_sle_eq)
  note t = loc_database_get_as_terminates [of db 2 65002 0 2]
  have "\<exists>r. loc_database_get_as 2 db 65002 = Some r"
    using t b by blast
  moreover have "(\<exists>r. \<forall>n. loc_database_get_as_loop (Suc n) db 65002 0 2 = Some r)
        \<or> (\<exists>lo' hi'. (\<forall>n. loc_database_get_as_loop (Suc n) db 65002 0 2
                              = loc_database_get_as_loop n db 65002 lo' hi')
              \<and> search_interval db lo' hi'
              \<and> sint (0 :: off_t) \<le> sint lo' \<and> sint hi' \<le> sint (2 :: off_t)
              \<and> 2 * (sint hi' - sint lo' + 1) \<le> sint (2 :: off_t) - sint (0 :: off_t) + 1)"
    using t si by blast
  ultimately show ?thesis
    using db(1) b si by blast
qed

text \<open>
  Claim C9. With \<open>as_count = 0\<close>, \<open>loc_database_get_as\<close> returns \<open>0\<close> with \<open>*as = NULL\<close>
  without entering the loop (no iteration is needed, so no record is fetched), and
  \<open>loc_database_fetch_as\<close> returns \<open>-EINVAL\<close> for every position at or past \<open>as_count\<close>.
\<close>

theorem loc_database_get_as_empty:
  "(as_count db = 0 \<longrightarrow> (\<forall>fuel. loc_database_get_as fuel db number = Some (Inr None)))
   \<and> (as_count db \<le> pos \<longrightarrow> loc_database_fetch_as db pos = Inl (Error (- EINVAL)))"
proof (intro conjI impI allI)
  fix fuel
  assume "as_count db = 0"
  then show "loc_database_get_as fuel db number = Some (Inr None)"
    by (simp add: loc_database_get_as_def loop_exit)
next
  assume "as_count db \<le> pos"
  then show "loc_database_fetch_as db pos = Inl (Error (- EINVAL))"
    by (rule loc_database_fetch_as_EINVAL)
qed

theorem loc_database_get_as_empty_witness:
  "\<exists>db. loc_database_new example_env example_file_no_as = Inr db
     \<and> as_count db = 0
     \<and> loc_database_get_as 0 db 65001 = Some (Inr None)
     \<and> loc_database_fetch_as db 0 = Inl (Error (- EINVAL))"
proof -
  obtain db where db: "loc_database_new example_env example_file_no_as = Inr db" "as_count db = 0"
    using example_file_no_as_opens by blast
  then show ?thesis
    using loc_database_get_as_empty [of db 65001 0] by simp
qed

subsection \<open>Correctness of the search\<close>

lemma as_table_Some:
  assumes "as_table db = Some tbl"
  shows "length tbl = unat (as_count db)"
    and "i < unat (as_count db) \<Longrightarrow>
           \<exists>dbobj. as_v0_at (as_v0 db) i = Some dbobj
             \<and> tbl ! i = loc_as_new_from_database_v0 (pool db) dbobj"
    and "a \<in> set tbl \<Longrightarrow> as_pool a = pool db"
proof -
  let ?idx = "[0 ..< unat (as_count db)]"
  have all: "list_all (\<lambda>i. as_v0_at (as_v0 db) i \<noteq> None) ?idx"
    and tbl: "tbl = map (\<lambda>i. loc_as_new_from_database_v0 (pool db) (the (as_v0_at (as_v0 db) i))) ?idx"
    using assms by (simp_all add: as_table_def Let_def split: if_splits)
  show "length tbl = unat (as_count db)"
    by (simp add: tbl)
  show "\<exists>dbobj. as_v0_at (as_v0 db) i = Some dbobj
             \<and> tbl ! i = loc_as_new_from_database_v0 (pool db) dbobj"
    if "i < unat (as_count db)"
  proof -
    have "as_v0_at (as_v0 db) i \<noteq> None"
      using all that by (simp add: list_all_iff)
    then show ?thesis
      using that by (auto simp add: tbl)
  qed
  show "as_pool a = pool db" if "a \<in> set tbl"
    using that by (auto simp add: tbl loc_as_new_from_database_v0_def)
qed

lemma loc_database_fetch_as_table:
  assumes "version db = 0" and "as_table db = Some tbl" and "m < length tbl"
  shows "loc_database_fetch_as db (word_of_nat m) = Inr (tbl ! m)"
proof -
  have len: "length tbl = unat (as_count db)"
    using assms(2) by (rule as_table_Some)
  have "unat (as_count db) < 2 ^ 64"
    using unsigned_less [of "as_count db", where ?'a = nat] by simp
  then have "m < 2 ^ 64"
    using assms(3) len by linarith
  then have u: "unat (word_of_nat m :: 64 word) = m"
    by (rule unat_word_of_nat_64)
  then have "\<not> as_count db \<le> word_of_nat m"
    using assms(3) len by (simp add: word_le_nat_alt)
  moreover obtain dbobj where "as_v0_at (as_v0 db) m = Some dbobj"
      "tbl ! m = loc_as_new_from_database_v0 (pool db) dbobj"
    using as_table_Some(2) [OF assms(2), of m] assms(3) len by auto
  ultimately show ?thesis
    using assms(1) by (simp add: loc_database_fetch_as_def u)
qed

lemma loop_correct:
  assumes v: "version db = 0" and t: "as_table db = Some tbl"
    and s: "sorted_wrt (<) (map loc_as_get_number tbl)"
    and n: "length tbl \<le> 2 ^ 62"
    and "l \<le> u" and "u \<le> length tbl" and "u - l < 2 ^ fuel"
    and "\<And>j. j < l \<Longrightarrow> loc_as_get_number (tbl ! j) < number"
    and "\<And>j. u \<le> j \<Longrightarrow> j < length tbl \<Longrightarrow> number < loc_as_get_number (tbl ! j)"
  shows "loc_database_get_as_loop fuel db number (word_of_nat l) (word_of_nat u - 1)
           = Some (Inr (find (\<lambda>a. loc_as_get_number a = number) tbl))"
  using assms(5-)
proof (induction fuel arbitrary: l u)
  case 0
  then have lu: "l = u" by simp
  have "u \<le> 2 ^ 63" "l \<le> 2 ^ 62"
    using 0 n by simp_all
  then have "\<not> (word_of_nat l :: 64 word) \<le>s word_of_nat u - 1"
    using lu by (simp add: loop_test)
  moreover have "find (\<lambda>a. loc_as_get_number a = number) tbl = None"
  proof -
    have "loc_as_get_number (tbl ! j) \<noteq> number" if "j < length tbl" for j
      using "0.prems"(4) [of j] "0.prems"(5) [of j] that lu
      by (cases "j < l") auto
    then show ?thesis
      by (auto simp add: find_None_iff in_set_conv_nth)
  qed
  ultimately show ?case
    by (simp add: loop_exit)
next
  case (Suc k)
  have b: "u \<le> 2 ^ 63" "l \<le> 2 ^ 62"
    using Suc.prems n by simp_all
  note test = loop_test [OF b(2) b(1)]
  show ?case
  proof (cases "l < u")
    case False
    then have lu: "l = u" using Suc.prems by simp
    have "\<not> (word_of_nat l :: 64 word) \<le>s word_of_nat u - 1"
      using False by (simp add: test)
    moreover have "find (\<lambda>a. loc_as_get_number a = number) tbl = None"
    proof -
      have "loc_as_get_number (tbl ! j) \<noteq> number" if "j < length tbl" for j
        using Suc.prems(4) [of j] Suc.prems(5) [of j] that lu
        by (cases "j < l") auto
      then show ?thesis
        by (auto simp add: find_None_iff in_set_conv_nth)
    qed
    ultimately show ?thesis
      by (simp add: loop_exit)
  next
    case True
    define m where "m = (l + u - 1) div 2"
    have "l + u \<le> 2 ^ 63"
      using Suc.prems n by simp
    with True
    have i: "(word_of_int (sint (word_of_nat l + (word_of_nat u - 1) :: 64 word) sdiv 2) :: 64 word)
        = word_of_nat m"
      unfolding m_def by (rule loop_mid)
    have m: "l \<le> m" "m < u" "m < length tbl"
      using True Suc.prems(2) unfolding m_def by simp_all
    have "u - l < 2 * 2 ^ k"
      using Suc.prems(3) by simp
    then have sz: "u - (m + 1) < 2 ^ k" "m - l < 2 ^ k"
      using True unfolding m_def by linarith+
    have fetch: "loc_database_fetch_as db (word_of_nat m) = Inr (tbl ! m)"
      using v t m(3) by (rule loc_database_fetch_as_table)
    have mono: "loc_as_get_number (tbl ! j) < loc_as_get_number (tbl ! j')"
      if "j < j'" "j' < length tbl" for j j'
      using sorted_wrt_nth_less [OF s, of j j'] that by simp
    consider (eq) "loc_as_get_number (tbl ! m) = number"
      | (lt) "loc_as_get_number (tbl ! m) < number"
      | (gt) "number < loc_as_get_number (tbl ! m)"
      by (metis linorder_neqE)
    then show ?thesis
    proof cases
      case eq
      have "find (\<lambda>a. loc_as_get_number a = number) tbl = Some (tbl ! m)"
        unfolding find_Some_iff
      proof (intro exI [of _ m] conjI allI impI)
        fix j assume "j < m"
        then show "\<not> loc_as_get_number (tbl ! j) = number"
          using mono [of j m] m(3) eq by simp
      qed (use m eq in simp_all)
      then show ?thesis
        using True eq by (simp add: test i fetch Let_def)
    next
      case lt
      have e: "(word_of_nat m + 1 :: 64 word) = word_of_nat (m + 1)"
        by simp
      have "loc_database_get_as_loop k db number (word_of_nat m + 1) (word_of_nat u - 1)
           = Some (Inr (find (\<lambda>a. loc_as_get_number a = number) tbl))"
        unfolding e
      proof (intro Suc.IH)
        fix j assume "j < m + 1"
        then have "j = m \<or> j < m" by linarith
        then show "loc_as_get_number (tbl ! j) < number"
          using lt mono [of j m] m(3) by (auto intro: less_trans)
      qed (use m sz Suc.prems in simp_all)
      moreover have "loc_as_get_number (tbl ! m) \<noteq> number"
        using lt by simp
      ultimately show ?thesis
        using True lt by (simp add: test i fetch Let_def)
    next
      case gt
      have "loc_database_get_as_loop k db number (word_of_nat l) (word_of_nat m - 1)
           = Some (Inr (find (\<lambda>a. loc_as_get_number a = number) tbl))"
      proof (intro Suc.IH)
        fix j assume "m \<le> j" "j < length tbl"
        then have "j = m \<or> m < j" by linarith
        then show "number < loc_as_get_number (tbl ! j)"
          using gt mono [of m j] \<open>j < length tbl\<close> by (auto intro: less_trans)
      qed (use m sz Suc.prems in simp_all)
      moreover have "\<not> loc_as_get_number (tbl ! m) < number" "loc_as_get_number (tbl ! m) \<noteq> number"
        using gt by simp_all
      ultimately show ?thesis
        using True by (simp add: test i fetch Let_def)
    qed
  qed
qed

text \<open>
  Claim C1. For every opened database whose AS table is sorted strictly ascending by
  number, \<open>loc_database_get_as\<close> returns \<open>0\<close> and hands over the record of the table with
  the queried number, its name resolved through the pool of the database, when the
  table has one, and \<open>NULL\<close> otherwise; it never returns an error.
\<close>

theorem loc_database_get_as_correct:
  assumes "loc_database_new e f = Inr db" and "as_table db = Some tbl"
    and "sorted_wrt (<) (map loc_as_get_number tbl)"
    and "length tbl < 2 ^ fuel"
  shows "loc_database_get_as fuel db number
           = Some (Inr (find (\<lambda>a. loc_as_get_number a = number) tbl))
       \<and> (find (\<lambda>a. loc_as_get_number a = number) tbl = None
            \<longleftrightarrow> number \<notin> loc_as_get_number ` set tbl)
       \<and> (\<forall>a. find (\<lambda>a. loc_as_get_number a = number) tbl = Some a \<longrightarrow>
              a \<in> set tbl \<and> loc_as_get_number a = number
              \<and> (\<exists>p. pool db = Some p
                     \<and> loc_as_get_name a = loc_stringpool_get p (unat (as_name a))))"
proof (intro conjI allI impI)
  have o: "version db = 0" "unat (as_count db) < 2 ^ 29" "pool db \<noteq> None"
    using loc_database_new_Inr [OF assms(1)] by simp_all
  have len: "length tbl = unat (as_count db)"
    using assms(2) by (rule as_table_Some)
  have "length tbl \<le> 2 ^ 62"
    using o(2) len by simp
  then have "loc_database_get_as_loop fuel db number (word_of_nat 0) (word_of_nat (length tbl) - 1)
           = Some (Inr (find (\<lambda>a. loc_as_get_number a = number) tbl))"
    using o(1) assms(2,3,4) by (intro loop_correct) simp_all
  then show "loc_database_get_as fuel db number
           = Some (Inr (find (\<lambda>a. loc_as_get_number a = number) tbl))"
    by (simp add: loc_database_get_as_def len)
  show "find (\<lambda>a. loc_as_get_number a = number) tbl = None
            \<longleftrightarrow> number \<notin> loc_as_get_number ` set tbl"
    by (auto simp add: find_None_iff)
  fix a
  assume a: "find (\<lambda>a. loc_as_get_number a = number) tbl = Some a"
  then show "a \<in> set tbl" and "loc_as_get_number a = number"
    by (auto simp add: find_Some_iff)
  then have "as_pool a = pool db"
    using as_table_Some(3) [OF assms(2)] by simp
  then show "\<exists>p. pool db = Some p
                     \<and> loc_as_get_name a = loc_stringpool_get p (unat (as_name a))"
    using o(3) by (auto simp add: loc_as_get_name_def)
qed

lemma example_as_table:
  assumes "as_count db = 3" and "pool db = Some example_pool"
    and "as_v0 db = Some example_as_section"
  shows "as_table db =
     Some [\<lparr>as_pool = Some example_pool, as_number = 64512, as_name = 1\<rparr>,
           \<lparr>as_pool = Some example_pool, as_number = 65001, as_name = 1\<rparr>,
           \<lparr>as_pool = Some example_pool, as_number = 65002, as_name = 0\<rparr>]"
  using assms
  by (simp add: as_table_def Let_def upt_rec as_v0_at_def sizeof_as_v0_def example_as_section_def
      loc_as_new_from_database_v0_def ntohl_def)

theorem loc_database_get_as_correct_witness:
  "\<exists>db. loc_database_new example_env example_file = Inr db
     \<and> loc_database_get_as 2 db 65001
         = Some (Inr (Some \<lparr>as_pool = Some example_pool, as_number = 65001, as_name = 1\<rparr>))
     \<and> loc_database_get_as 2 db 65000 = Some (Inr None)
     \<and> loc_as_get_name \<lparr>as_pool = Some example_pool, as_number = 65001, as_name = 1\<rparr>
         = Some [0x54, 0x45, 0x53, 0x54]"
proof -
  obtain db where db: "loc_database_new example_env example_file = Inr db"
    "as_count db = 3" "pool db = Some example_pool" "as_v0 db = Some example_as_section"
    using example_file_opens by blast
  let ?tbl = "[\<lparr>as_pool = Some example_pool, as_number = 64512, as_name = 1\<rparr>,
           \<lparr>as_pool = Some example_pool, as_number = 65001, as_name = 1\<rparr>,
           \<lparr>as_pool = Some example_pool, as_number = 65002, as_name = 0\<rparr>]"
  have t: "as_table db = Some ?tbl"
    using db(2-4) by (rule example_as_table)
  have s: "sorted_wrt (<) (map loc_as_get_number ?tbl)"
    by (simp add: loc_as_get_number_def)
  have l: "length ?tbl < 2 ^ 2"
    by simp
  have "loc_database_get_as 2 db 65001
         = Some (Inr (Some \<lparr>as_pool = Some example_pool, as_number = 65001, as_name = 1\<rparr>))"
    using loc_database_get_as_correct [OF db(1) t s l, of 65001]
    by (simp add: loc_as_get_number_def)
  moreover have "loc_database_get_as 2 db 65000 = Some (Inr None)"
    using loc_database_get_as_correct [OF db(1) t s l, of 65000]
    by (simp add: loc_as_get_number_def)
  moreover have "loc_as_get_name \<lparr>as_pool = Some example_pool, as_number = 65001, as_name = 1\<rparr>
         = Some [0x54, 0x45, 0x53, 0x54]"
    by (simp add: loc_as_get_name_def loc_stringpool_get_def example_pool_def)
  ultimately show ?thesis
    using db(1) by blast
qed

end
